theory Spec2Isabelle
  imports Main
begin

section \<open>Strings, characters and Python values\<close>

text \<open>
  The module under verification is \<^verbatim>\<open>src/save/model.py\<close> (Python 2: byte strings,
  ASCII-only \<^verbatim>\<open>\d\<close>, \<^verbatim>\<open>\w\<close>, \<^verbatim>\<open>upper()\<close> and \<^verbatim>\<open>lower()\<close>, and ASCII-only
  case folding under \<^verbatim>\<open>(?i)\<close>). A Python \<^verbatim>\<open>str\<close> is a \<^typ>\<open>string\<close>; a Python
  \<^verbatim>\<open>int\<close> is an \<^typ>\<open>int\<close>; \<^verbatim>\<open>None\<close> is \<^term>\<open>None\<close> of an option type.
\<close>

datatype error =
    AttributeError string
  | IndexError
  | KeyError string
  | TypeError

definition is_digit :: "char \<Rightarrow> bool" where
  "is_digit c = (c \<in> set ''0123456789'')"

definition lowers :: string where
  "lowers = ''abcdefghijklmnopqrstuvwxyz''"

definition uppers :: string where
  "uppers = ''ABCDEFGHIJKLMNOPQRSTUVWXYZ''"

definition is_word :: "char \<Rightarrow> bool" where
  \<comment> \<open>\<^verbatim>\<open>\w\<close> without the LOCALE and UNICODE flags: \<^verbatim>\<open>[a-zA-Z0-9_]\<close>\<close>
  "is_word c = (c \<in> set lowers \<or> c \<in> set uppers \<or> is_digit c \<or> c = CHR ''_'')"

definition upper_char :: "char \<Rightarrow> char" where
  "upper_char c = (case map_of (zip lowers uppers) c of Some u \<Rightarrow> u | None \<Rightarrow> c)"

definition lower_char :: "char \<Rightarrow> char" where
  "lower_char c = (case map_of (zip uppers lowers) c of Some l \<Rightarrow> l | None \<Rightarrow> c)"

definition upper :: "string \<Rightarrow> string" where
  "upper s = map upper_char s"

definition lower :: "string \<Rightarrow> string" where
  "lower s = map lower_char s"

definition digit_val :: "char \<Rightarrow> int" where
  "digit_val c = int (of_char c) - 48"

definition int_of_digits :: "string \<Rightarrow> int" where
  \<comment> \<open>\<^verbatim>\<open>int(s)\<close> on a non-empty run of decimal digits\<close>
  "int_of_digits ds = foldl (\<lambda>a c. 10 * a + digit_val c) 0 ds"

fun split_str :: "char \<Rightarrow> string \<Rightarrow> string list" where
  \<comment> \<open>\<^verbatim>\<open>s.split(sep)\<close> for a one-character separator\<close>
  "split_str sep [] = [] # []"
| "split_str sep (c # cs) =
     (if c = sep then [] # split_str sep cs
      else (case split_str sep cs of
              [] \<Rightarrow> [c] # []
            | w # ws \<Rightarrow> (c # w) # ws))"

definition or_str :: "string option \<Rightarrow> string option" where
  \<comment> \<open>the truthiness test of \<^verbatim>\<open>x or default\<close> on a string or None:
      \<^term>\<open>None\<close> when \<^verbatim>\<open>x\<close> is falsy (None or the empty string)\<close>
  "or_str x = (case x of None \<Rightarrow> None | Some s \<Rightarrow> if s = [] then None else Some s)"

definition or_int :: "int option \<Rightarrow> int option" where
  \<comment> \<open>the same test on an integer or None: zero is falsy\<close>
  "or_int x = (case x of None \<Rightarrow> None | Some v \<Rightarrow> if v = 0 then None else Some v)"

section \<open>Regular-expression search\<close>

text \<open>
  A compiled pattern is modelled by its matcher: given the character before the
  current position (for a look-behind; \<^term>\<open>None\<close> at the start of the string) and the
  text from the current position on, the matcher returns the item that
  \<^verbatim>\<open>findall\<close> reports for a match starting exactly here (the group when the
  pattern has one, the whole match otherwise) together with the number of
  characters the match consumes, or \<^term>\<open>None\<close> when the pattern does not match here.

  \<^verbatim>\<open>finditer\<close> is the scan of \<^verbatim>\<open>re.findall\<close>: try the pattern at the current
  position; on a match record it and resume at the end of the match, otherwise move
  one character to the right. Matches never overlap. None of the module's patterns
  matches the empty string, so the scan stops at the end of the text.
\<close>

type_synonym matcher = "char option \<Rightarrow> string \<Rightarrow> (string \<times> nat) option"

function finditer :: "matcher \<Rightarrow> nat \<Rightarrow> char option \<Rightarrow> string \<Rightarrow> (nat \<times> string \<times> nat) list" where
  "finditer m i prev [] = []"
| "finditer m i prev (c # cs) =
     (case m prev (c # cs) of
        None \<Rightarrow> finditer m (Suc i) (Some c) cs
      | Some (g, n) \<Rightarrow>
          (i, g, n) # finditer m (i + max 1 n) (Some ((c # cs) ! (max 1 n - 1))) (drop (max 1 n) (c # cs)))"
  by pat_completeness auto
termination
  by (relation "measure (\<lambda>(m, i, prev, s). length s)") auto

definition findall :: "matcher \<Rightarrow> string \<Rightarrow> string list" where
  "findall m s = map (\<lambda>(i, g, n). g) (finditer m 0 None s)"


definition prev_at :: "string \<Rightarrow> nat \<Rightarrow> char option" where
  \<comment> \<open>the character before position \<open>i\<close> of \<open>t\<close>\<close>
  "prev_at t i = (if i = 0 then None else Some (t ! (i - 1)))"

definition match_at :: "matcher \<Rightarrow> string \<Rightarrow> nat \<Rightarrow> (string \<times> nat) option" where
  \<comment> \<open>the pattern occurs in \<open>t\<close> starting exactly at position \<open>i\<close>\<close>
  "match_at m t i = (if i < length t then m (prev_at t i) (drop i t) else None)"

section \<open>SceneFile\<close>

record scene_file =
  description :: string
  discipline :: string
  version :: int
  optional :: "string option"
  user :: string
  extension :: string

definition disciplines :: "string list" where
  "disciplines = [''MDL'', ''LAYOUT'', ''ANIM'', ''PREVIS'', ''LGT'', ''FX'', ''MM'', ''SHADING'',
     ''TECHANIM'', ''LOOKDEV'', ''EXPORT'', ''RP'', ''RS'', ''RB'', ''RIG'']"

subsection \<open>The patterns\<close>

definition pattern_leading_v :: matcher where
  \<comment> \<open>\<^verbatim>\<open>[\._][vV](\d+)[\._]\<close>: a separator, a \<open>v\<close>, the whole digit run (a shorter run
      is followed by a digit, never by a separator), a separator; the group is the
      digit run\<close>
  "pattern_leading_v prev s =
     (case s of
        c1 # c2 # rest \<Rightarrow>
          if c1 \<in> set ''._'' \<and> c2 \<in> set ''vV'' then
            (let ds = takeWhile is_digit rest in
             case dropWhile is_digit rest of
               [] \<Rightarrow> None
             | c3 # _ \<Rightarrow> if ds \<noteq> [] \<and> c3 \<in> set ''._'' then Some (ds, length ds + 3) else None)
          else None
      | _ \<Rightarrow> None)"

definition pattern_only_numbers :: matcher where
  \<comment> \<open>\<^verbatim>\<open>(?<=[._$/])(\d+)(?=[._$/])\<close>: the look-behind and the look-ahead consume
      nothing, so the match is the digit run alone\<close>
  "pattern_only_numbers prev s =
     (case prev of
        None \<Rightarrow> None
      | Some b \<Rightarrow>
          if b \<in> set ''._$/'' then
            (let ds = takeWhile is_digit s in
             case dropWhile is_digit s of
               [] \<Rightarrow> None
             | c # _ \<Rightarrow> if ds \<noteq> [] \<and> c \<in> set ''._$/'' then Some (ds, length ds) else None)
          else None)"

definition pattern_username :: matcher where
  \<comment> \<open>\<^verbatim>\<open>[\._^](\w{2})[\._$]\<close>: inside a character class \<open>^\<close> (not in first place)
      and \<open>$\<close> are the literal characters\<close>
  "pattern_username prev s =
     (case s of
        c1 # a # b # c4 # _ \<Rightarrow>
          if c1 \<in> set ''._^'' \<and> is_word a \<and> is_word b \<and> c4 \<in> set ''._$''
          then Some ([a, b], 4) else None
      | _ \<Rightarrow> None)"

definition ci_prefix :: "string \<Rightarrow> string \<Rightarrow> bool" where
  \<comment> \<open>the literal \<open>d\<close> matches at the head of \<open>s\<close>, ignoring ASCII case\<close>
  "ci_prefix d s = (map upper_char (take (length d) s) = map upper_char d)"

definition pattern_discipline :: matcher where
  \<comment> \<open>\<^verbatim>\<open>'(?i)' + '|'.join(cls.disciplines)\<close>: the first alternative, in list order,
      that matches here; no group, so the item is the matched text\<close>
  "pattern_discipline prev s =
     (case find (\<lambda>d. ci_prefix d s) disciplines of
        None \<Rightarrow> None
      | Some d \<Rightarrow> Some (take (length d) s, length d))"

subsection \<open>Occurrences, in the words of the specification\<close>

text \<open>
  What it means for a token of each kind to occur in a file name \<open>t\<close> at position
  \<open>p\<close> (counted from 0), stated on the characters of \<open>t\<close> and not through the
  patterns. \<open>take k (drop p t)\<close> is the substring of length \<open>k\<close> at position \<open>p\<close>.
\<close>

definition marker_at :: "string \<Rightarrow> nat \<Rightarrow> string \<Rightarrow> bool" where
  \<comment> \<open>an explicit version marker: a separator, \<open>v\<close> or \<open>V\<close>, the digits \<open>ds\<close>,
      a separator\<close>
  "marker_at t p ds =
     (ds \<noteq> [] \<and> list_all is_digit ds \<and>
      (\<exists>c1 \<in> set ''._''. \<exists>c2 \<in> set ''vV''. \<exists>c3 \<in> set ''._''.
         take (length ds + 3) (drop p t) = c1 # c2 # ds @ [c3]))"

definition bare_at :: "string \<Rightarrow> nat \<Rightarrow> string \<Rightarrow> bool" where
  \<comment> \<open>a bare digit run \<open>ds\<close> starting at \<open>p\<close>, with one of \<open>. _ $ /\<close> just before
      and just after it\<close>
  "bare_at t p ds =
     (ds \<noteq> [] \<and> list_all is_digit ds \<and> 0 < p \<and>
      (\<exists>b \<in> set ''._$/''. \<exists>a \<in> set ''._$/''.
         take (length ds + 2) (drop (p - 1) t) = b # ds @ [a]))"

definition token_at :: "string \<Rightarrow> nat \<Rightarrow> string \<Rightarrow> bool" where
  \<comment> \<open>a two-character token \<open>tok\<close> of word characters, with a separator (\<open>.\<close> or
      \<open>_\<close>) before and after it; \<open>p\<close> is the position of the leading separator\<close>
  "token_at t p tok =
     (length tok = 2 \<and> list_all is_word tok \<and>
      (\<exists>b \<in> set ''._''. \<exists>a \<in> set ''._''. take 4 (drop p t) = b # tok @ [a]))"

definition code_at :: "string \<Rightarrow> nat \<Rightarrow> string \<Rightarrow> bool" where
  \<comment> \<open>the discipline code \<open>d\<close> occurs at \<open>p\<close>, in upper or lower case\<close>
  "code_at t p d = (d \<in> set disciplines \<and> upper (take (length d) (drop p t)) = d)"

text \<open>
  The extent of an occurrence: \<open>n\<close> characters from position \<open>p\<close>, delimiters
  included.
\<close>

definition marker_span :: "string \<Rightarrow> nat \<Rightarrow> nat \<Rightarrow> bool" where
  "marker_span t p n = (\<exists>ds. marker_at t p ds \<and> n = length ds + 3)"

definition code_span :: "string \<Rightarrow> nat \<Rightarrow> nat \<Rightarrow> bool" where
  "code_span t p n = (\<exists>d. code_at t p d \<and> n = length d)"

definition token_span :: "string \<Rightarrow> nat \<Rightarrow> nat \<Rightarrow> bool" where
  "token_span t p n = (\<exists>tok. token_at t p tok \<and> n = 4)"

text \<open>
  The occurrences seen by a scan from the left that resumes behind each occurrence
  it finds. \<open>occ p n\<close> says that an occurrence of \<open>n\<close> characters starts at \<open>p\<close>.
  \<open>S\<close> is the set of the positions seen when: every position of \<open>S\<close> starts an
  occurrence; no two occurrences of \<open>S\<close> overlap; and every occurrence starts inside
  an occurrence of \<open>S\<close> (it is seen itself, or its start was passed over as part of
  one seen before). There is exactly one such set (\<open>scanned_unique\<close> below).
\<close>

definition scanned :: "(nat \<Rightarrow> nat \<Rightarrow> bool) \<Rightarrow> nat set \<Rightarrow> bool" where
  "scanned occ S =
     ((\<forall>p \<in> S. \<exists>n. occ p n) \<and>
      (\<forall>p \<in> S. \<forall>p' \<in> S. \<forall>n. p' < p \<longrightarrow> occ p' n \<longrightarrow> p' + n \<le> p) \<and>
      (\<forall>q n. occ q n \<longrightarrow> (\<exists>p \<in> S. \<exists>k. occ p k \<and> p \<le> q \<and> q < p + k)))"

subsection \<open>Inference from a file name\<close>

definition findDiscipline :: "string \<Rightarrow> string" where
  \<comment> \<open>\<^verbatim>\<open>SceneFile._findDiscipline\<close>\<close>
  "findDiscipline filename =
     (let discipline_matches = findall pattern_discipline filename in
      if discipline_matches \<noteq> [] then upper (last discipline_matches) else [])"

definition findUser :: "string \<Rightarrow> string" where
  \<comment> \<open>\<^verbatim>\<open>SceneFile._findUser\<close>\<close>
  "findUser filename =
     (let matches = filter (\<lambda>m. upper m \<notin> set disciplines) (findall pattern_username filename) in
      if matches \<noteq> [] then lower (last matches) else [])"

definition findVersion :: "string \<Rightarrow> int" where
  \<comment> \<open>\<^verbatim>\<open>SceneFile._findVersion\<close>: \<open>result\<close> is the string of the last match of the
      first tier that matched, and \<^verbatim>\<open>int(result)\<close> is returned; with no match the
      initial \<open>-1\<close> is\<close>
  "findVersion filename =
     (let match1 = findall pattern_leading_v filename;
          match2 = filter (\<lambda>f. f \<noteq> []) (findall pattern_only_numbers filename) in
      if match1 \<noteq> [] then int_of_digits (last match1)
      else if match2 \<noteq> [] then int_of_digits (last match2)
      else - 1)"

definition getuser_initials :: "string \<Rightarrow> error + string" where
  \<comment> \<open>\<^verbatim>\<open>gp.getuser()[0] + gp.getuser().split('-')[-1][0]\<close> for the login name
      returned by \<^verbatim>\<open>gp.getuser()\<close>\<close>
  "getuser_initials login =
     (case login of
        [] \<Rightarrow> Inl IndexError
      | a # _ \<Rightarrow>
          (case last (split_str CHR ''-'' login) of
             [] \<Rightarrow> Inl IndexError
           | b # _ \<Rightarrow> Inr [a, b]))"

definition SceneFile ::
  "string \<Rightarrow> string option \<Rightarrow> string option \<Rightarrow> int option \<Rightarrow> string option \<Rightarrow>
   string option \<Rightarrow> string option \<Rightarrow> error + scene_file" where
  \<comment> \<open>\<^verbatim>\<open>SceneFile.__init__\<close>; the first argument is the login name of the current
      user, read only when \<open>user\<close> is falsy\<close>
  "SceneFile login description' discipline' version' user' optional' extension' =
     (case (case or_str user' of Some u \<Rightarrow> Inr u | None \<Rightarrow> getuser_initials login) of
        Inl e \<Rightarrow> Inl e
      | Inr u \<Rightarrow>
          Inr \<lparr> description = (case or_str description' of Some s \<Rightarrow> s | None \<Rightarrow> ''unititled''),
                discipline = (case or_str discipline' of Some s \<Rightarrow> s | None \<Rightarrow> ''MDL''),
                version = (case or_int version' of Some v \<Rightarrow> v | None \<Rightarrow> 1),
                optional = or_str optional',
                user = u,
                extension = (case or_str extension' of Some s \<Rightarrow> s | None \<Rightarrow> ''ma'') \<rparr>)"

definition from_existing :: "string \<Rightarrow> string \<Rightarrow> error + scene_file" where
  \<comment> \<open>\<^verbatim>\<open>SceneFile.from_existing\<close>\<close>
  "from_existing login filename =
     (let version' = findVersion filename;
          user' = findUser filename;
          discipline' = findDiscipline filename in
      SceneFile login None (Some discipline') (Some version') (Some user') None None)"

definition increment :: "int option \<Rightarrow> int \<Rightarrow> scene_file \<Rightarrow> scene_file" where
  \<comment> \<open>\<^verbatim>\<open>SceneFile.increment\<close>\<close>
  "increment version' step sf =
     (case version' of
        None \<Rightarrow> sf\<lparr>version := version sf + step\<rparr>
      | Some v \<Rightarrow> sf\<lparr>version := v\<rparr>)"

subsection \<open>The extension\<close>

definition rfind :: "char \<Rightarrow> string \<Rightarrow> int" where
  \<comment> \<open>\<^verbatim>\<open>s.rfind(c)\<close>: the last index of \<open>c\<close>, or \<open>-1\<close>\<close>
  "rfind c s =
     (if c \<in> set s then int (length s) - 1 - int (length (takeWhile (\<lambda>x. x \<noteq> c) (rev s)))
      else - 1)"

definition splitext :: "string \<Rightarrow> string \<times> string" where
  \<comment> \<open>\<^verbatim>\<open>os.path.splitext\<close> of the standard library (posixpath): the extension
      starts at the last dot of the last path component, leading dots of the
      component apart\<close>
  "splitext p =
     (let sepIndex = rfind CHR ''/'' p;
          dotIndex = rfind CHR ''.'' p in
      if dotIndex > sepIndex \<and>
         list_ex (\<lambda>c. c \<noteq> CHR ''.'') (take (nat (dotIndex - (sepIndex + 1))) (drop (nat (sepIndex + 1)) p))
      then (take (nat dotIndex) p, drop (nat dotIndex) p)
      else (p, []))"

definition findExt :: "string \<Rightarrow> string" where
  \<comment> \<open>\<^verbatim>\<open>SceneFile._findExt\<close>\<close>
  "findExt filename =
     (if filename = [] then ''ma''
      else (let e = filter (\<lambda>c. c \<noteq> CHR ''.'') (snd (splitext filename)) in
            if e \<noteq> [] then e else ''ma''))"

section \<open>SaveData: rendering the file name\<close>

datatype pyval = PStr string | PInt int | PNone

definition getattr :: "scene_file \<Rightarrow> string \<Rightarrow> error + pyval" where
  \<comment> \<open>attribute lookup \<^verbatim>\<open>self.scene_file.<attr>\<close> on a SceneFile instance: the
      instance attributes are the six that \<^verbatim>\<open>__init__\<close> assigns; the class adds
      \<open>disciplines\<close>, the three patterns and the methods, none of them a data field
      read by the rendering\<close>
  "getattr sf attr =
     (if attr = ''description'' then Inr (PStr (description sf))
      else if attr = ''discipline'' then Inr (PStr (discipline sf))
      else if attr = ''version'' then Inr (PInt (version sf))
      else if attr = ''optional'' then Inr (case optional sf of None \<Rightarrow> PNone | Some s \<Rightarrow> PStr s)
      else if attr = ''user'' then Inr (PStr (user sf))
      else if attr = ''extension'' then Inr (PStr (extension sf))
      else Inl (AttributeError attr))"

definition bind_err :: "error + 'a \<Rightarrow> ('a \<Rightarrow> error + 'b) \<Rightarrow> error + 'b" where
  \<comment> \<open>sequencing: an exception raised by the first step ends the computation\<close>
  "bind_err r f = (case r of Inl e \<Rightarrow> Inl e | Inr x \<Rightarrow> f x)"

function str_nat :: "nat \<Rightarrow> string" where
  "str_nat n = (if n < 10 then [''0123456789'' ! n]
                else str_nat (n div 10) @ [''0123456789'' ! (n mod 10)])"
  by pat_completeness auto
termination
  by (relation "measure (\<lambda>n. n)") auto

definition str_int :: "int \<Rightarrow> string" where
  "str_int v = (if v < 0 then CHR ''-'' # str_nat (nat (- v)) else str_nat (nat v))"

definition fmt_03d :: "int \<Rightarrow> string" where
  \<comment> \<open>\<^verbatim>\<open>'%03d' % v\<close>: zero-padded to a width of three characters, sign included\<close>
  "fmt_03d v =
     (if v < 0 then CHR ''-'' # replicate (2 - length (str_nat (nat (- v)))) CHR ''0'' @ str_nat (nat (- v))
      else replicate (3 - length (str_nat (nat v))) CHR ''0'' @ str_nat (nat v))"

definition str_pyval :: "pyval \<Rightarrow> string" where
  "str_pyval v = (case v of PStr s \<Rightarrow> s | PInt i \<Rightarrow> str_int i | PNone \<Rightarrow> ''None'')"

function replace_str :: "string \<Rightarrow> string \<Rightarrow> string \<Rightarrow> string" where
  \<comment> \<open>\<^verbatim>\<open>s.replace(old, new)\<close> for a non-empty \<open>old\<close>\<close>
  "replace_str old new [] = []"
| "replace_str old new (c # cs) =
     (if old \<noteq> [] \<and> take (length old) (c # cs) = old
      then new @ replace_str old new (drop (length old) (c # cs))
      else c # replace_str old new cs)"
  by pat_completeness auto
termination
  by (relation "measure (\<lambda>(old, new, s). length s)") auto

function format_str :: "string \<Rightarrow> (string \<times> pyval) list \<Rightarrow> error + string" where
  \<comment> \<open>\<^verbatim>\<open>template.format(**kwargs)\<close> for a template of literal text and plain
      \<^verbatim>\<open>{NAME}\<close> fields\<close>
  "format_str [] kwargs = Inr []"
| "format_str (c # cs) kwargs =
     (if c = CHR ''{'' then
        (case map_of kwargs (takeWhile (\<lambda>x. x \<noteq> CHR ''}'') cs) of
           None \<Rightarrow> Inl (KeyError (takeWhile (\<lambda>x. x \<noteq> CHR ''}'') cs))
         | Some v \<Rightarrow>
             bind_err (format_str (drop 1 (dropWhile (\<lambda>x. x \<noteq> CHR ''}'') cs)) kwargs)
               (\<lambda>r. Inr (str_pyval v @ r)))
      else bind_err (format_str cs kwargs) (\<lambda>r. Inr (c # r)))"
  by pat_completeness auto
termination
  by (relation "measure (\<lambda>(s, kwargs). length s)")
     (auto simp: le_imp_less_Suc le_trans [OF diff_le_self length_dropWhile_le])

definition template_string :: string where
  "template_string = ''{DESCRIPTION}_{DISCIPLINE}_{VERSION}_{INITIALS}_{OPTIONAL}{EXT}''"

definition get_filename :: "scene_file \<Rightarrow> error + string" where
  \<comment> \<open>\<^verbatim>\<open>SaveData.get_filename\<close>, as a function of \<^verbatim>\<open>self.scene_file\<close>, the only
      state it reads; the keyword arguments are evaluated in the order written,
      before \<^verbatim>\<open>format\<close> is called\<close>
  "get_filename sf =
     bind_err (getattr sf ''optional'') (\<lambda>opt.
       (let template_string_copy =
              (if opt = PNone then replace_str ''_{OPTIONAL}'' [] template_string
               else template_string) in
        bind_err (getattr sf ''description'') (\<lambda>DESCRIPTION.
        bind_err (getattr sf ''discipline'') (\<lambda>DISCIPLINE.
        bind_err (getattr sf ''version'') (\<lambda>v.
        bind_err (case v of PInt i \<Rightarrow> Inr (PStr (fmt_03d i)) | _ \<Rightarrow> Inl TypeError) (\<lambda>VERSION.
        bind_err (getattr sf ''initials'') (\<lambda>INITIALS.
        bind_err (getattr sf ''optional'') (\<lambda>OPTIONAL.
        bind_err (getattr sf ''extension'') (\<lambda>EXT.
          format_str template_string_copy
            [(''DESCRIPTION'', DESCRIPTION), (''DISCIPLINE'', DISCIPLINE), (''VERSION'', VERSION),
             (''INITIALS'', INITIALS), (''OPTIONAL'', OPTIONAL), (''EXT'', EXT)])))))))))"

definition version_segment :: "scene_file \<Rightarrow> error + pyval" where
  \<comment> \<open>the keyword argument \<^verbatim>\<open>VERSION = '%03d' % self.scene_file.version\<close> of
      \<^verbatim>\<open>get_filename\<close>, as it is evaluated there\<close>
  "version_segment sf =
     bind_err (getattr sf ''version'')
       (\<lambda>v. case v of PInt i \<Rightarrow> Inr (PStr (fmt_03d i)) | _ \<Rightarrow> Inl TypeError)"

definition basename :: "string \<Rightarrow> string" where
  \<comment> \<open>\<^verbatim>\<open>os.path.basename\<close>: what follows the last slash\<close>
  "basename p = rev (takeWhile (\<lambda>c. c \<noteq> CHR ''/'') (rev p))"

definition SaveData_scene_file :: "string \<Rightarrow> string \<Rightarrow> error + scene_file" where
  \<comment> \<open>the \<open>scene_file\<close> that \<^verbatim>\<open>SaveData.__init__\<close> builds:
      \<^verbatim>\<open>SceneFile(self.input_file)\<close>\<close>
  "SaveData_scene_file login input_filepath =
     SceneFile login (Some (basename input_filepath)) None None None None None"

definition SaveData_get_filename :: "string \<Rightarrow> string \<Rightarrow> error + string" where
  \<comment> \<open>\<^verbatim>\<open>SaveData(input_filepath).get_filename()\<close>, the Directory part of the
      constructor, which does not touch \<open>scene_file\<close>, left aside\<close>
  "SaveData_get_filename login input_filepath =
     bind_err (SaveData_scene_file login input_filepath) get_filename"

section \<open>Directory\<close>

text \<open>
  The naming authority (\<^verbatim>\<open>mpc.tessa.contexts\<close>) is not part of the module. A node
  of its hierarchy is a name with its children; a context is a value of a type
  \<open>'c\<close> with the operations the module calls on it.
\<close>

datatype node = Node (name: string) (findChildren: "node list")

record context_dict =
  cd_job :: "string option"
  cd_shot :: "string option"
  cd_scene :: "string option"

record 'c tessa =
  as_dict :: "'c \<Rightarrow> context_dict"
  fromDict :: "context_dict \<Rightarrow> error + 'c"
  validateContext :: "'c \<Rightarrow> error + bool"
  job :: "'c \<Rightarrow> node"

type_synonym 'v dict = "(string \<times> 'v) list"

fun dict_set :: "string \<Rightarrow> 'v \<Rightarrow> 'v dict \<Rightarrow> 'v dict" where
  \<comment> \<open>\<^verbatim>\<open>d[k] = v\<close>: an existing key keeps its place\<close>
  "dict_set k v [] = [(k, v)]"
| "dict_set k v (p # ps) = (if fst p = k then (k, v) # ps else p # dict_set k v ps)"

definition dict_get :: "'v dict \<Rightarrow> string \<Rightarrow> error + 'v" where
  \<comment> \<open>\<^verbatim>\<open>d[k]\<close>\<close>
  "dict_get d k = (case map_of d k of None \<Rightarrow> Inl (KeyError k) | Some v \<Rightarrow> Inr v)"

definition keys :: "'v dict \<Rightarrow> string list" where
  "keys d = map fst d"

record 'c Directory =
  context' :: 'c
  tree_cache :: "(string list) dict dict"

definition scene_ignore_list :: "string list" where
  "scene_ignore_list = [''pitch'', ''archive'', ''library'', ''pantry'', ''reference'', ''ripple'',
     ''stats'', ''templates'', ''contactSheets'', ''common'', ''docs'']"

definition shot_ignore_list :: "string list" where
  "shot_ignore_list = [''nuke_template'', ''config'', ''tools'']"

definition or_field :: "string option \<Rightarrow> string option \<Rightarrow> string option" where
  \<comment> \<open>\<^verbatim>\<open>x or cur\<close>\<close>
  "or_field x cur = (case or_str x of Some s \<Rightarrow> Some s | None \<Rightarrow> cur)"

definition validate :: "'c tessa \<Rightarrow> 'c Directory \<Rightarrow> error + bool" where
  "validate T d = validateContext T (context' d)"

definition overlay ::
  "'c tessa \<Rightarrow> string option \<Rightarrow> string option \<Rightarrow> string option \<Rightarrow> 'c Directory \<Rightarrow> context_dict" where
  \<comment> \<open>\<^verbatim>\<open>cur_context\<close> of \<^verbatim>\<open>set_cur_dir\<close> after its three assignments\<close>
  "overlay T job' shot' scene' d =
     (let cur_context = as_dict T (context' d) in
      cur_context\<lparr> cd_job := or_field job' (cd_job cur_context),
                    cd_shot := or_field shot' (cd_shot cur_context),
                    cd_scene := or_field scene' (cd_scene cur_context) \<rparr>)"

definition set_cur_dir ::
  "'c tessa \<Rightarrow> string option \<Rightarrow> string option \<Rightarrow> string option \<Rightarrow> context_dict option \<Rightarrow>
   'c Directory \<Rightarrow> (error + bool) \<times> 'c Directory" where
  \<comment> \<open>\<^verbatim>\<open>Directory.set_cur_dir(job, shot, scene, from_dict)\<close>: the result and the
      object after the call; an exception of the naming authority leaves the
      object as it is at that moment. \<open>from_dict\<close> is \<^term>\<open>None\<close> when the
      argument is falsy (None or an empty dictionary)\<close>
  "set_cur_dir T job' shot' scene' from_dict d =
     (let orig_context = context' d in
      case (case from_dict of
              Some fd \<Rightarrow> fromDict T fd
            | None \<Rightarrow> fromDict T (overlay T job' shot' scene' d)) of
        Inl e \<Rightarrow> (Inl e, d)
      | Inr c \<Rightarrow>
          (case validate T (d\<lparr>context' := c\<rparr>) of
             Inl e \<Rightarrow> (Inl e, d\<lparr>context' := c\<rparr>)
           | Inr ok \<Rightarrow>
               if \<not> ok then (Inr False, d\<lparr>context' := c\<rparr>\<lparr>context' := orig_context\<rparr>)
               else (Inr True, d\<lparr>context' := c\<rparr>)))"

definition add_scene :: "node \<Rightarrow> (string list) dict \<Rightarrow> (string list) dict" where
  \<comment> \<open>one round of the outer loop of \<^verbatim>\<open>refresh_tree\<close>\<close>
  "add_scene scene scenes =
     (if name scene \<notin> set scene_ignore_list
      then dict_set (name scene)
             (foldl (\<lambda>shots shot. shots @ [name shot]) [] (findChildren scene)) scenes
      else scenes)"

definition refresh_tree :: "'c tessa \<Rightarrow> 'c Directory \<Rightarrow> (string list) dict dict \<times> 'c Directory" where
  \<comment> \<open>\<^verbatim>\<open>Directory.refresh_tree\<close>: the returned cache and the object after the call\<close>
  "refresh_tree T d =
     (let job' = job T (context' d);
          cache = [(name job', foldl (\<lambda>scenes scene. add_scene scene scenes) [] (findChildren job'))]
      in (cache, d\<lparr>tree_cache := cache\<rparr>))"

definition get_scenes :: "'c tessa \<Rightarrow> string list \<Rightarrow> 'c Directory \<Rightarrow> error + string list" where
  \<comment> \<open>\<^verbatim>\<open>Directory.get_scenes(filter)\<close>\<close>
  "get_scenes T filter' d =
     (let filter'' = filter' @ scene_ignore_list in
      bind_err (dict_get (tree_cache d) (name (job T (context' d))))
        (\<lambda>scenes. Inr (filter (\<lambda>scene. scene \<notin> set filter'') (keys scenes))))"

definition get_shots ::
  "'c tessa \<Rightarrow> string \<Rightarrow> string list \<Rightarrow> 'c Directory \<Rightarrow> error + string list option" where
  \<comment> \<open>\<^verbatim>\<open>Directory.get_shots(scene_name, filter)\<close>; \<^term>\<open>None\<close> is Python's None\<close>
  "get_shots T scene_name filter' d =
     (let filter'' = filter' @ shot_ignore_list in
      bind_err (dict_get (tree_cache d) (name (job T (context' d))))
        (\<lambda>scenes.
           if scene_name \<in> set (keys scenes)
           then bind_err (dict_get (tree_cache d) (name (job T (context' d))))
                  (\<lambda>scenes'. bind_err (dict_get scenes' scene_name)
                     (\<lambda>shots. Inr (Some (filter (\<lambda>shot. shot \<notin> set filter'') shots))))
           else Inr None))"

subsection \<open>An in-memory naming authority\<close>

text \<open>
  A small hierarchy on which the operations can be run: a context is its own
  dictionary, resolution always succeeds, and a context is valid when its job, scene
  and shot name a path of the hierarchy.
\<close>

definition demo_jobs :: "node list" where
  "demo_jobs =
     [Node ''jobA''
        [Node ''build'' [Node ''char_santa'' [], Node ''config'' []],
         Node ''pitch'' [Node ''p01'' []],
         Node ''shots'' [Node ''sh01'' [], Node ''tools'' []]],
      Node ''jobB''
        [Node ''build'' [Node ''prop_sled'' []]]]"

definition find_node :: "string option \<Rightarrow> node list \<Rightarrow> node option" where
  "find_node n ns = (case n of None \<Rightarrow> None | Some s \<Rightarrow> find (\<lambda>x. name x = s) ns)"

definition demo_valid :: "context_dict \<Rightarrow> bool" where
  "demo_valid c =
     (case find_node (cd_job c) demo_jobs of
        None \<Rightarrow> False
      | Some j \<Rightarrow>
          (case find_node (cd_scene c) (findChildren j) of
             None \<Rightarrow> False
           | Some sc \<Rightarrow> find_node (cd_shot c) (findChildren sc) \<noteq> None))"

definition demo_tessa :: "context_dict tessa" where
  "demo_tessa =
     \<lparr> as_dict = (\<lambda>c. c),
       fromDict = (\<lambda>fd. Inr fd),
       validateContext = (\<lambda>c. Inr (demo_valid c)),
       job = (\<lambda>c. case find_node (cd_job c) demo_jobs of
                     Some j \<Rightarrow> j
                   | None \<Rightarrow> Node (case cd_job c of Some s \<Rightarrow> s | None \<Rightarrow> []) []) \<rparr>"

definition demo_dir :: "context_dict Directory" where
  \<comment> \<open>the object after \<^verbatim>\<open>Directory.__init__\<close> on \<^verbatim>\<open>/jobs/jobA/build/char_santa\<close>\<close>
  "demo_dir =
     snd (refresh_tree demo_tessa
       \<lparr> context' = \<lparr> cd_job = Some ''jobA'', cd_shot = Some ''char_santa'', cd_scene = Some ''build'' \<rparr>,
         tree_cache = [] \<rparr>)"

section \<open>Properties of the file-name inference\<close>

lemma from_existing_eq:
  "from_existing login filename =
     (case (if findUser filename = [] then getuser_initials login else Inr (findUser filename)) of
        Inl e \<Rightarrow> Inl e
      | Inr u \<Rightarrow>
          Inr \<lparr> description = ''unititled'',
                discipline = (if findDiscipline filename = [] then ''MDL'' else findDiscipline filename),
                version = (if findVersion filename = 0 then 1 else findVersion filename),
                optional = None,
                user = u,
                extension = ''ma'' \<rparr>)"
  by (simp add: from_existing_def SceneFile_def or_str_def or_int_def Let_def split: sum.splits)

section \<open>Properties of the scan\<close>

lemma drop_eq_ConsD:
  assumes "c # cs = drop i t"
  shows "i < length t" and "cs = drop (Suc i) t" and "Some c = prev_at t (Suc i)"
proof -
  from assms show il: "i < length t"
    by (metis drop_all list.distinct(1) not_le)
  from assms il show "cs = drop (Suc i) t"
    by (metis Cons_nth_drop_Suc list.inject)
  from assms il show "Some c = prev_at t (Suc i)"
    by (metis Cons_nth_drop_Suc diff_Suc_1 list.inject nat.distinct(1) prev_at_def)
qed

lemma resume_args:
  assumes "c # cs = drop i t" and "0 < k"
  shows "drop k (c # cs) = drop (i + k) t"
    and "Some ((c # cs) ! (k - 1)) = prev_at t (i + k)"
proof -
  from assms(1) show "drop k (c # cs) = drop (i + k) t"
    by (simp add: add.commute)
  have il: "i \<le> length t"
    using drop_eq_ConsD(1) [OF assms(1)] by simp
  have "(drop i t) ! (k - 1) = t ! (i + (k - 1))"
    using il by (rule nth_drop)
  with assms show "Some ((c # cs) ! (k - 1)) = prev_at t (i + k)"
    by (simp add: prev_at_def)
qed

lemma finditer_sound:
  assumes "(p, g, n) \<in> set (finditer m i prev s)" and "s = drop i t" and "prev = prev_at t i"
  shows "i \<le> p \<and> p < length t \<and> match_at m t p = Some (g, n)"
  using assms
proof (induction m i prev s rule: finditer.induct)
  case (1 m i prev)
  then show ?case by simp
next
  case (2 m i prev c cs)
  note d = drop_eq_ConsD [OF "2.prems"(2)]
  show ?case
  proof (cases "m prev (c # cs)")
    case None
    with "2.prems"(1) have "(p, g, n) \<in> set (finditer m (Suc i) (Some c) cs)"
      by simp
    from "2.IH"(1) [OF None this d(2) d(3)] show ?thesis
      by simp
  next
    case (Some a)
    obtain g' n' where a: "a = (g', n')"
      by (cases a)
    show ?thesis
    proof (cases "(p, g, n) = (i, g', n')")
      case True
      with Some a "2.prems" d(1) show ?thesis
        by (simp add: match_at_def)
    next
      case False
      with "2.prems"(1) Some a
      have "(p, g, n) \<in> set (finditer m (i + max 1 n') (Some ((c # cs) ! (max 1 n' - 1))) (drop (max 1 n') (c # cs)))"
        by auto
      moreover have k: "0 < max 1 n'" by simp
      ultimately show ?thesis
        using "2.IH"(2) [OF Some a [symmetric] _
          resume_args(1) [OF "2.prems"(2) k] resume_args(2) [OF "2.prems"(2) k]]
        by simp
    qed
  qed
qed

lemma finditer_cover:
  assumes "s = drop i t" and "prev = prev_at t i" and "i \<le> q" and "match_at m t q \<noteq> None"
  shows "\<exists>p g n. (p, g, n) \<in> set (finditer m i prev s) \<and> p \<le> q \<and> q < p + max 1 n"
  using assms
proof (induction m i prev s rule: finditer.induct)
  case (1 m i prev)
  then show ?case by (simp add: match_at_def)
next
  case (2 m i prev c cs)
  note d = drop_eq_ConsD [OF "2.prems"(1)]
  show ?case
  proof (cases "m prev (c # cs)")
    case None
    with "2.prems" have "match_at m t i = None"
      by (simp add: match_at_def)
    with "2.prems" have "Suc i \<le> q"
      by (metis Suc_leI le_neq_implies_less)
    from "2.IH"(1) [OF None d(2) d(3) this "2.prems"(4)] None show ?thesis
      by auto
  next
    case (Some a)
    obtain g' n' where a: "a = (g', n')"
      by (cases a)
    show ?thesis
    proof (cases "q < i + max 1 n'")
      case True
      with Some a "2.prems"(3) show ?thesis
        by auto
    next
      case False
      then have "i + max 1 n' \<le> q" by simp
      moreover have k: "0 < max 1 n'" by simp
      ultimately obtain p g n where
        "(p, g, n) \<in> set (finditer m (i + max 1 n') (Some ((c # cs) ! (max 1 n' - 1))) (drop (max 1 n') (c # cs)))"
        "p \<le> q" "q < p + max 1 n"
        using "2.IH"(2) [OF Some a [symmetric]
          resume_args(1) [OF "2.prems"(1) k] resume_args(2) [OF "2.prems"(1) k] _ "2.prems"(4)]
        by blast
      with Some a show ?thesis
        by auto
    qed
  qed
qed

lemma finditer_ge: "(p, g, n) \<in> set (finditer m i prev s) \<Longrightarrow> i \<le> p"
proof (induction m i prev s rule: finditer.induct)
  case (1 m i prev)
  then show ?case by simp
next
  case (2 m i prev c cs)
  show ?case
  proof (cases "m prev (c # cs)")
    case None
    with "2.prems" "2.IH"(1) [OF None] show ?thesis by simp
  next
    case (Some a)
    obtain g' n' where a: "a = (g', n')"
      by (cases a)
    show ?thesis
    proof (cases "(p, g, n) = (i, g', n')")
      case True
      then show ?thesis by simp
    next
      case False
      with "2.prems" Some a
      have "(p, g, n) \<in> set (finditer m (i + max 1 n') (Some ((c # cs) ! (max 1 n' - 1))) (drop (max 1 n') (c # cs)))"
        by auto
      from "2.IH"(2) [OF Some a [symmetric] this] show ?thesis by simp
    qed
  qed
qed

lemma finditer_sorted:
  "sorted_wrt (\<lambda>a b. fst a + max 1 (snd (snd a)) \<le> fst b) (finditer m i prev s)"
proof (induction m i prev s rule: finditer.induct)
  case (1 m i prev)
  then show ?case by simp
next
  case (2 m i prev c cs)
  show ?case
  proof (cases "m prev (c # cs)")
    case None
    with "2.IH"(1) show ?thesis by simp
  next
    case (Some a)
    obtain g' n' where a: "a = (g', n')"
      by (cases a)
    have "\<forall>x \<in> set (finditer m (i + max 1 n') (Some ((c # cs) ! (max 1 n' - 1))) (drop (max 1 n') (c # cs))).
            i + max 1 n' \<le> fst x"
    proof
      fix x
      assume x: "x \<in> set (finditer m (i + max 1 n') (Some ((c # cs) ! (max 1 n' - 1))) (drop (max 1 n') (c # cs)))"
      obtain p g n where "x = (p, g, n)" by (cases x)
      with x finditer_ge have "i + max 1 n' \<le> p" by blast
      with \<open>x = (p, g, n)\<close> show "i + max 1 n' \<le> fst x" by simp
    qed
    with "2.IH"(2) [OF Some a [symmetric]] Some a show ?thesis
      by simp
  qed
qed

lemma finditer_increasing: "sorted_wrt (\<lambda>a b. fst a < fst b) (finditer m i prev s)"
  by (rule sorted_wrt_mono_rel [OF _ finditer_sorted]) auto

lemma last_filter_sorted:
  assumes "sorted_wrt (\<lambda>a b. fst a < fst b) xs" and "x \<in> set xs" and "P x"
    and "\<forall>y \<in> set xs. fst x < fst y \<longrightarrow> \<not> P y"
  shows "last (filter P xs) = x"
proof -
  from assms(2) obtain ys zs where xs: "xs = ys @ x # zs"
    by (auto dest: split_list)
  with assms(1) have "\<forall>z \<in> set zs. fst x < fst z"
    by (simp add: sorted_wrt_append)
  with assms(4) xs have "filter P zs = []"
    by (auto simp: filter_empty_conv)
  with xs assms(3) show ?thesis by simp
qed


lemma scan_sound: "(p, g, n) \<in> set (finditer m 0 None t) \<Longrightarrow> match_at m t p = Some (g, n)"
  using finditer_sound [of p g n m 0 None t t] by (simp add: prev_at_def)

lemma scan_cover:
  assumes "match_at m t q \<noteq> None"
  shows "\<exists>p g n. (p, g, n) \<in> set (finditer m 0 None t) \<and> p \<le> q \<and> q < p + max 1 n"
  using finditer_cover [of t 0 t None q m] assms by (simp add: prev_at_def)

lemma scan_found:
  assumes "match_at m t p = Some (g, n)"
    and "\<And>p' g' n'. p' < p \<Longrightarrow> match_at m t p' = Some (g', n') \<Longrightarrow> p' + max 1 n' \<le> p"
  shows "(p, g, n) \<in> set (finditer m 0 None t)"
proof -
  from assms(1) have "match_at m t p \<noteq> None" by simp
  from scan_cover [OF this] obtain p' g' n' where
    f: "(p', g', n') \<in> set (finditer m 0 None t)" and le: "p' \<le> p" and lt: "p < p' + max 1 n'"
    by blast
  from scan_sound [OF f] have m': "match_at m t p' = Some (g', n')" .
  have "p' = p"
  proof (rule ccontr)
    assume "p' \<noteq> p"
    with le have "p' < p" by simp
    from assms(2) [OF this m'] lt show False by simp
  qed
  with m' assms(1) f show ?thesis by simp
qed

lemma scan_last:
  assumes "finditer m 0 None t \<noteq> []"
  shows "\<exists>p g n. last (finditer m 0 None t) = (p, g, n) \<and> match_at m t p = Some (g, n) \<and>
           (\<forall>q. match_at m t q \<noteq> None \<longrightarrow> q < p + max 1 n)"
proof -
  let ?xs = "finditer m 0 None t"
  obtain p g n where l: "last ?xs = (p, g, n)"
    by (cases "last ?xs")
  from assms have mem: "(p, g, n) \<in> set ?xs"
    using l last_in_set by metis
  have "\<forall>q. match_at m t q \<noteq> None \<longrightarrow> q < p + max 1 n"
  proof (intro allI impI)
    fix q
    assume "match_at m t q \<noteq> None"
    from scan_cover [OF this] obtain p' g' n' where
      f: "(p', g', n') \<in> set ?xs" and lt: "q < p' + max 1 n'"
      by blast
    show "q < p + max 1 n"
    proof (cases "(p', g', n') = (p, g, n)")
      case True
      with lt show ?thesis by simp
    next
      case False
      from assms have "butlast ?xs @ [last ?xs] = ?xs"
        by (rule append_butlast_last_id)
      with l have eq: "butlast ?xs @ [(p, g, n)] = ?xs"
        by simp
      have "sorted_wrt (\<lambda>a b. fst a + max 1 (snd (snd a)) \<le> fst b) (butlast ?xs @ [(p, g, n)])"
        by (subst eq) (rule finditer_sorted)
      then have b: "\<forall>x \<in> set (butlast ?xs). fst x + max 1 (snd (snd x)) \<le> p"
        by (simp add: sorted_wrt_append)
      have "set ?xs = set (butlast ?xs) \<union> {(p, g, n)}"
        by (subst eq [symmetric]) simp
      with f False have "(p', g', n') \<in> set (butlast ?xs)"
        by blast
      with b have "p' + max 1 n' \<le> p"
        by fastforce
      with lt show ?thesis by simp
    qed
  qed
  with l scan_sound [OF mem] show ?thesis by blast
qed

lemma findall_last:
  assumes "match_at m t q \<noteq> None"
  shows "findall m t \<noteq> [] \<and>
         (\<exists>p g n. last (findall m t) = g \<and> match_at m t p = Some (g, n) \<and>
            (\<forall>q. match_at m t q \<noteq> None \<longrightarrow> q < p + max 1 n))"
proof -
  from scan_cover [OF assms] have ne: "finditer m 0 None t \<noteq> []"
    by auto
  from scan_last [OF ne] obtain p g n where
    "last (finditer m 0 None t) = (p, g, n)" "match_at m t p = Some (g, n)"
    "\<forall>q. match_at m t q \<noteq> None \<longrightarrow> q < p + max 1 n"
    by blast
  with ne show ?thesis
    by (auto simp: findall_def last_map)
qed

lemma findall_last_filter:
  assumes "match_at m t p = Some (g, n)"
    and "\<And>p' g' n'. p' < p \<Longrightarrow> match_at m t p' = Some (g', n') \<Longrightarrow> p' + max 1 n' \<le> p"
    and "P g"
    and "\<And>q g' n'. p < q \<Longrightarrow> match_at m t q = Some (g', n') \<Longrightarrow> \<not> P g'"
  shows "filter P (findall m t) \<noteq> [] \<and> last (filter P (findall m t)) = g"
proof -
  let ?xs = "finditer m 0 None t"
  let ?Q = "\<lambda>x. P (fst (snd x))"
  have mem: "(p, g, n) \<in> set ?xs"
    using assms(1,2) by (rule scan_found)
  have right: "\<forall>y \<in> set ?xs. fst (p, g, n) < fst y \<longrightarrow> \<not> ?Q y"
  proof (intro ballI impI)
    fix y
    assume y: "y \<in> set ?xs" and lt: "fst (p, g, n) < fst y"
    obtain q g' n' where yy: "y = (q, g', n')" by (cases y)
    from y yy scan_sound have "match_at m t q = Some (g', n')" by blast
    with assms(4) [of q g' n'] lt yy show "\<not> ?Q y" by simp
  qed
  have "last (filter ?Q ?xs) = (p, g, n)"
    using finditer_increasing mem _ right by (rule last_filter_sorted) (simp add: assms(3))
  moreover have "?Q (p, g, n)"
    using assms(3) by simp
  with mem have ne: "filter ?Q ?xs \<noteq> []"
    unfolding filter_empty_conv by blast
  moreover have "filter P (findall m t) = map (\<lambda>(i, g, n). g) (filter ?Q ?xs)"
    by (simp add: findall_def filter_map comp_def case_prod_beta)
  ultimately show ?thesis
    by (simp add: last_map)
qed

lemma findall_filter_empty:
  assumes "\<And>q g n. match_at m t q = Some (g, n) \<Longrightarrow> \<not> P g"
  shows "filter P (findall m t) = []"
proof -
  have "\<forall>x \<in> set (finditer m 0 None t). \<not> P (fst (snd x))"
  proof
    fix x
    assume x: "x \<in> set (finditer m 0 None t)"
    obtain q g n where "x = (q, g, n)" by (cases x)
    with x scan_sound assms show "\<not> P (fst (snd x))" by fastforce
  qed
  then show ?thesis
    by (auto simp: findall_def filter_empty_conv)
qed

lemma findall_filter_sound:
  assumes "filter P (findall m t) \<noteq> []"
  shows "\<exists>p n. match_at m t p = Some (last (filter P (findall m t)), n) \<and> P (last (filter P (findall m t)))"
proof -
  from assms have "last (filter P (findall m t)) \<in> set (filter P (findall m t))"
    by (rule last_in_set)
  then have "last (filter P (findall m t)) \<in> set (findall m t)" and p: "P (last (filter P (findall m t)))"
    by auto
  then obtain q g n where "(q, g, n) \<in> set (finditer m 0 None t)" "last (filter P (findall m t)) = g"
    by (auto simp: findall_def)
  with scan_sound [of q g n m t] p show ?thesis
    by auto
qed


lemma sorted_wrt_pair:
  assumes "sorted_wrt R xs" and "x \<in> set xs" and "y \<in> set xs"
  shows "x = y \<or> R x y \<or> R y x"
  using assms by (induction xs) auto

lemma finditer_apart:
  assumes "(p', g', n') \<in> set (finditer m i prev s)" and "(p, g, n) \<in> set (finditer m i prev s)"
    and "p' < p"
  shows "p' + max 1 n' \<le> p"
proof -
  from sorted_wrt_pair [OF finditer_sorted assms(1,2)] assms(3) show ?thesis
    by auto
qed

lemma scanned_finditer:
  assumes "\<And>p g n. match_at m t p = Some (g, n) \<Longrightarrow> 0 < n"
  shows "scanned (\<lambda>p n. \<exists>g. match_at m t p = Some (g, n)) (fst ` set (finditer m 0 None t))"
  unfolding scanned_def
proof (intro conjI ballI allI impI)
  fix p
  assume "p \<in> fst ` set (finditer m 0 None t)"
  then obtain g n where "(p, g, n) \<in> set (finditer m 0 None t)"
    by force
  from scan_sound [OF this] show "\<exists>n. \<exists>g. match_at m t p = Some (g, n)"
    by blast
next
  fix p p' n
  assume "p \<in> fst ` set (finditer m 0 None t)" and "p' \<in> fst ` set (finditer m 0 None t)"
    and lt: "p' < p" and "\<exists>g. match_at m t p' = Some (g, n)"
  then obtain g a g' b gg where f: "(p, g, a) \<in> set (finditer m 0 None t)"
    and f': "(p', g', b) \<in> set (finditer m 0 None t)" and mm: "match_at m t p' = Some (gg, n)"
    by force
  from scan_sound [OF f'] mm have "b = n" by simp
  with finditer_apart [OF f' f lt] show "p' + n \<le> p"
    by simp
next
  fix q n
  assume "\<exists>g. match_at m t q = Some (g, n)"
  then have "match_at m t q \<noteq> None" by auto
  from scan_cover [OF this] obtain p g k where f: "(p, g, k) \<in> set (finditer m 0 None t)"
    and le: "p \<le> q" and lt: "q < p + max 1 k"
    by blast
  from scan_sound [OF f] have mk: "match_at m t p = Some (g, k)" .
  from assms [OF mk] lt have "q < p + k" by simp
  moreover from f have "p \<in> fst ` set (finditer m 0 None t)" by force
  ultimately show "\<exists>p \<in> fst ` set (finditer m 0 None t). \<exists>k. (\<exists>g. match_at m t p = Some (g, k)) \<and> p \<le> q \<and> q < p + k"
    using mk le by blast
qed

lemma scanned_subset:
  assumes "scanned occ S" and "scanned occ S'"
  shows "p \<in> S \<Longrightarrow> p \<in> S'"
proof (induction p rule: less_induct)
  case (less p)
  from assms(1) less.prems obtain n where "occ p n"
    unfolding scanned_def by blast
  with assms(2) obtain p' k where p': "p' \<in> S'" "occ p' k" "p' \<le> p" "p < p' + k"
    unfolding scanned_def by blast
  show ?case
  proof (cases "p' = p")
    case True
    with p'(1) show ?thesis by simp
  next
    case False
    with p'(3) have lt: "p' < p" by simp
    have "p' \<in> S"
    proof -
      from assms(2) p'(1) obtain n' where "occ p' n'"
        unfolding scanned_def by blast
      with assms(1) obtain r j where r: "r \<in> S" "occ r j" "r \<le> p'" "p' < r + j"
        unfolding scanned_def by blast
      show ?thesis
      proof (cases "r = p'")
        case True
        with r(1) show ?thesis by simp
      next
        case False
        with r(3) have "r < p'" by simp
        with lt have "r < p" by simp
        from less.IH [OF this r(1)] have "r \<in> S'" .
        with assms(2) p'(1) \<open>r < p'\<close> r(2) have "r + j \<le> p'"
          unfolding scanned_def by blast
        with r(4) show ?thesis by simp
      qed
    qed
    with assms(1) less.prems lt p'(2) have "p' + k \<le> p"
      unfolding scanned_def by blast
    with p'(4) show ?thesis by simp
  qed
qed

lemma scanned_unique: "scanned occ S \<Longrightarrow> scanned occ S' \<Longrightarrow> S = S'"
  using scanned_subset [of occ S S'] scanned_subset [of occ S' S] by blast

lemma scanned_found:
  assumes "\<And>p g n. match_at m t p = Some (g, n) \<Longrightarrow> 0 < n"
    and "scanned (\<lambda>p n. \<exists>g. match_at m t p = Some (g, n)) S"
  shows "S = fst ` set (finditer m 0 None t)"
  using assms(2) scanned_finditer [OF assms(1)] by (rule scanned_unique)

lemma findall_last_filter_seen:
  assumes "(p, g, n) \<in> set (finditer m 0 None t)" and "P g"
    and "\<And>q g' n'. (q, g', n') \<in> set (finditer m 0 None t) \<Longrightarrow> p < q \<Longrightarrow> \<not> P g'"
  shows "filter P (findall m t) \<noteq> [] \<and> last (filter P (findall m t)) = g"
proof -
  let ?xs = "finditer m 0 None t"
  let ?Q = "\<lambda>x. P (fst (snd x))"
  have right: "\<forall>y \<in> set ?xs. fst (p, g, n) < fst y \<longrightarrow> \<not> ?Q y"
  proof (intro ballI impI)
    fix y
    assume y: "y \<in> set ?xs" and lt: "fst (p, g, n) < fst y"
    obtain q g' n' where yy: "y = (q, g', n')" by (cases y)
    with assms(3) [of q g' n'] y lt show "\<not> ?Q y" by simp
  qed
  have "last (filter ?Q ?xs) = (p, g, n)"
    using finditer_increasing assms(1) _ right by (rule last_filter_sorted) (simp add: assms(2))
  moreover have "?Q (p, g, n)"
    using assms(2) by simp
  with assms(1) have ne: "filter ?Q ?xs \<noteq> []"
    unfolding filter_empty_conv by blast
  moreover have "filter P (findall m t) = map (\<lambda>(i, g, n). g) (filter ?Q ?xs)"
    by (simp add: findall_def filter_map comp_def case_prod_beta)
  ultimately show ?thesis
    by (simp add: last_map)
qed

lemma findall_filter_unseen:
  assumes "\<And>q g n. (q, g, n) \<in> set (finditer m 0 None t) \<Longrightarrow> \<not> P g"
  shows "filter P (findall m t) = []"
  using assms by (auto simp: findall_def filter_empty_conv)

lemma finditer_last_max:
  assumes "(q, g, n) \<in> set (finditer m i prev s)"
  shows "q \<le> fst (last (finditer m i prev s))"
proof -
  let ?xs = "finditer m i prev s"
  from assms have ne: "?xs \<noteq> []" by auto
  then have eq: "butlast ?xs @ [last ?xs] = ?xs"
    by (rule append_butlast_last_id)
  have "sorted_wrt (\<lambda>a b. fst a < fst b) (butlast ?xs @ [last ?xs])"
    by (subst eq) (rule finditer_increasing)
  then have b: "\<forall>x \<in> set (butlast ?xs). fst x < fst (last ?xs)"
    by (simp add: sorted_wrt_append)
  have "set ?xs = set (butlast ?xs) \<union> {last ?xs}"
    by (subst eq [symmetric]) simp
  with assms have "(q, g, n) = last ?xs \<or> (q, g, n) \<in> set (butlast ?xs)"
    by blast
  then show ?thesis
  proof
    assume "(q, g, n) = last ?xs"
    then have "fst (last ?xs) = q" by (metis fst_conv)
    then show ?thesis by simp
  next
    assume "(q, g, n) \<in> set (butlast ?xs)"
    with b have "fst (q, g, n) < fst (last ?xs)" by blast
    then show ?thesis by simp
  qed
qed

section \<open>The patterns and the occurrences they find\<close>


lemma digit_not_sep: "is_digit c \<Longrightarrow> c \<notin> set ''._$/''"
  by (auto simp: is_digit_def)

lemma takeWhile_run:
  assumes "list_all P ds" and "\<not> P c"
  shows "takeWhile P (ds @ c # r) = ds" and "dropWhile P (ds @ c # r) = c # r"
  using assms by (induction ds) auto

lemma run_decompose:
  assumes "dropWhile P s = c # r"
  shows "s = takeWhile P s @ c # r" and "\<not> P c" and "list_all P (takeWhile P s)"
proof -
  from assms show "s = takeWhile P s @ c # r"
    by (metis takeWhile_dropWhile_id)
  from assms show "\<not> P c"
    by (metis hd_dropWhile list.distinct(1) list.sel(1))
  show "list_all P (takeWhile P s)"
    by (auto simp: list_all_iff dest: set_takeWhileD)
qed

lemma take_len_append: "n = length xs \<Longrightarrow> s = xs @ r \<Longrightarrow> take n s = xs"
  by simp

lemma take_prefix_eq: "take (length xs) s = xs \<longleftrightarrow> (\<exists>r. s = xs @ r)"
  by (metis append_eq_conv_conj append_take_drop_id)

lemma pattern_leading_v_iff:
  "pattern_leading_v prev s = Some (ds, n) \<longleftrightarrow>
     n = length ds + 3 \<and> ds \<noteq> [] \<and> list_all is_digit ds \<and>
     (\<exists>c1 \<in> set ''._''. \<exists>c2 \<in> set ''vV''. \<exists>c3 \<in> set ''._''.
        take (length ds + 3) s = c1 # c2 # ds @ [c3])"
  (is "?L \<longleftrightarrow> ?R")
proof
  assume ?L
  then obtain c1 c2 rest c3 r where s: "s = c1 # c2 # rest"
    and c: "c1 \<in> set ''._''" "c2 \<in> set ''vV''" "c3 \<in> set ''._''"
    and dw: "dropWhile is_digit rest = c3 # r"
    and ds: "ds = takeWhile is_digit rest" "ds \<noteq> []" and n: "n = length ds + 3"
    by (auto simp: pattern_leading_v_def Let_def split: list.splits if_splits)
  from run_decompose [OF dw] ds have rest: "rest = ds @ c3 # r" and la: "list_all is_digit ds"
    by auto
  have "take (length ds + 3) s = c1 # c2 # ds @ [c3]"
    by (rule take_len_append [where r = r]) (simp_all add: s rest)
  with c ds(2) la n show ?R
    by blast
next
  assume r: ?R
  then obtain c1 c2 c3 where c: "c1 \<in> set ''._''" "c2 \<in> set ''vV''" "c3 \<in> set ''._''"
    and t: "take (length ds + 3) s = c1 # c2 # ds @ [c3]"
    by blast
  have len: "length (c1 # c2 # ds @ [c3]) = length ds + 3" by simp
  have "take (length (c1 # c2 # ds @ [c3])) s = c1 # c2 # ds @ [c3]"
    unfolding len by (rule t)
  then obtain r' where s: "s = (c1 # c2 # ds @ [c3]) @ r'"
    unfolding take_prefix_eq by blast
  from c(3) have nd: "\<not> is_digit c3"
    by (auto simp: is_digit_def)
  from r have la: "list_all is_digit ds" by simp
  from takeWhile_run [OF la nd, of r'] s c r show ?L
    by (simp add: pattern_leading_v_def)
qed

lemma pattern_only_numbers_iff:
  "pattern_only_numbers prev s = Some (ds, n) \<longleftrightarrow>
     n = length ds \<and> ds \<noteq> [] \<and> list_all is_digit ds \<and>
     (\<exists>b \<in> set ''._$/''. \<exists>a \<in> set ''._$/''. prev = Some b \<and> take (length ds + 1) s = ds @ [a])"
  (is "?L \<longleftrightarrow> ?R")
proof
  assume ?L
  then obtain b a r where p: "prev = Some b" "b \<in> set ''._$/''" "a \<in> set ''._$/''"
    and dw: "dropWhile is_digit s = a # r"
    and ds: "ds = takeWhile is_digit s" "ds \<noteq> []" and n: "n = length ds"
    by (auto simp: pattern_only_numbers_def Let_def split: option.splits list.splits if_splits)
  from run_decompose [OF dw] ds have s: "s = ds @ a # r" and la: "list_all is_digit ds"
    by auto
  have "take (length ds + 1) s = ds @ [a]"
    by (rule take_len_append [where r = r]) (simp_all add: s)
  with p ds(2) la n show ?R
    by blast
next
  assume r: ?R
  then obtain b a where p: "prev = Some b" "b \<in> set ''._$/''" "a \<in> set ''._$/''"
    and t: "take (length ds + 1) s = ds @ [a]"
    by blast
  have len: "length (ds @ [a]) = length ds + 1" by simp
  have "take (length (ds @ [a])) s = ds @ [a]"
    unfolding len by (rule t)
  then obtain r' where s: "s = (ds @ [a]) @ r'"
    unfolding take_prefix_eq by blast
  from p(3) have nd: "\<not> is_digit a"
    by (auto simp: is_digit_def)
  from r have la: "list_all is_digit ds" by simp
  from takeWhile_run [OF la nd, of r'] s p r show ?L
    by (simp add: pattern_only_numbers_def)
qed

lemma pattern_username_iff:
  "pattern_username prev s = Some (tok, n) \<longleftrightarrow>
     n = 4 \<and> length tok = 2 \<and> list_all is_word tok \<and>
     (\<exists>b \<in> set ''._^''. \<exists>a \<in> set ''._$''. take 4 s = b # tok @ [a])"
  (is "?L \<longleftrightarrow> ?R")
proof
  assume ?L
  then show ?R
    by (auto simp: pattern_username_def split: list.splits if_splits)
next
  assume r: ?R
  then obtain x y where tok: "tok = [x, y]"
    by (cases tok; cases "tl tok") auto
  from r obtain b a where "b \<in> set ''._^''" "a \<in> set ''._$''" and t: "take 4 s = b # tok @ [a]"
    by blast
  have len: "length [b, x, y, a] = 4" by simp
  from t tok have t': "take 4 s = [b, x, y, a]" by simp
  have "take (length [b, x, y, a]) s = [b, x, y, a]"
    unfolding len by (rule t')
  then obtain r' where "s = [b, x, y, a] @ r'"
    unfolding take_prefix_eq by blast
  with r tok \<open>b \<in> set ''._^''\<close> \<open>a \<in> set ''._$''\<close> show ?L
    by (simp add: pattern_username_def)
qed


lemma drop_nonempty: "take k (drop p t) = x # xs \<Longrightarrow> p < length t"
  by (metis drop_all list.distinct(1) not_le take_Nil)

lemma marker_at_iff:
  "match_at pattern_leading_v t p = Some (ds, n) \<longleftrightarrow> marker_at t p ds \<and> n = length ds + 3"
proof (cases "p < length t")
  case True
  then show ?thesis
    by (auto simp: match_at_def marker_at_def pattern_leading_v_iff)
next
  case False
  then have "\<not> marker_at t p ds"
    by (auto simp: marker_at_def dest: drop_nonempty)
  with False show ?thesis
    by (simp add: match_at_def)
qed

lemma token_at_iff:
  assumes "CHR ''^'' \<notin> set t" and "CHR ''$'' \<notin> set t"
  shows "match_at pattern_username t p = Some (tok, n) \<longleftrightarrow> token_at t p tok \<and> n = 4"
proof -
  have sub: "set (take 4 (drop p t)) \<subseteq> set t"
    by (meson set_take_subset set_drop_subset subset_trans)
  have delim: "(\<exists>b \<in> set ''._^''. \<exists>a \<in> set ''._$''. take 4 (drop p t) = b # tok @ [a]) \<longleftrightarrow>
               (\<exists>b \<in> set ''._''. \<exists>a \<in> set ''._''. take 4 (drop p t) = b # tok @ [a])"
    (is "?A \<longleftrightarrow> ?B")
  proof
    assume ?A
    then obtain b a where ba: "b \<in> set ''._^''" "a \<in> set ''._$''"
      and e: "take 4 (drop p t) = b # tok @ [a]"
      by blast
    from e have "b \<in> set (take 4 (drop p t))" "a \<in> set (take 4 (drop p t))"
      by simp_all
    with sub have "b \<in> set t" "a \<in> set t"
      by blast+
    with assms have "b \<noteq> CHR ''^''" "a \<noteq> CHR ''$''"
      by blast+
    with ba have "b \<in> set ''._''" "a \<in> set ''._''"
      by simp_all
    with e show ?B by blast
  next
    assume ?B
    then obtain b a where ba: "b \<in> set ''._''" "a \<in> set ''._''"
      and e: "take 4 (drop p t) = b # tok @ [a]"
      by blast
    from ba have "b \<in> set ''._^''" "a \<in> set ''._$''"
      by auto
    with e show ?A by blast
  qed
  show ?thesis
  proof (cases "p < length t")
    case True
    then have "match_at pattern_username t p = Some (tok, n) \<longleftrightarrow>
        n = 4 \<and> length tok = 2 \<and> list_all is_word tok \<and>
        (\<exists>b \<in> set ''._^''. \<exists>a \<in> set ''._$''. take 4 (drop p t) = b # tok @ [a])"
      by (simp only: match_at_def if_True pattern_username_iff)
    then show ?thesis
      unfolding delim token_at_def by blast
  next
    case False
    then have "\<not> token_at t p tok"
      by (auto simp: token_at_def dest: drop_nonempty)
    with False show ?thesis
      by (simp add: match_at_def)
  qed
qed

lemma take_drop_pred:
  assumes "0 < p"
  shows "take (Suc k) (drop (p - 1) t) = b # xs \<longleftrightarrow>
         p - 1 < length t \<and> t ! (p - 1) = b \<and> take k (drop p t) = xs"
proof (cases "p - 1 < length t")
  case True
  from Cons_nth_drop_Suc [OF True] assms have "drop (p - 1) t = t ! (p - 1) # drop p t"
    by simp
  with True show ?thesis by simp
next
  case False
  then show ?thesis by simp
qed

lemma bare_at_iff:
  "match_at pattern_only_numbers t p = Some (ds, n) \<longleftrightarrow> bare_at t p ds \<and> n = length ds"
proof (cases "0 < p \<and> p < length t")
  case True
  then have pos: "0 < p" and lt: "p < length t" and lt': "p - 1 < length t"
    by auto
  have k: "length ds + 2 = Suc (length ds + 1)" by simp
  have m: "match_at pattern_only_numbers t p = pattern_only_numbers (Some (t ! (p - 1))) (drop p t)"
    using pos lt by (simp add: match_at_def prev_at_def)
  have l: "pattern_only_numbers (Some (t ! (p - 1))) (drop p t) = Some (ds, n) \<longleftrightarrow>
      n = length ds \<and> ds \<noteq> [] \<and> list_all is_digit ds \<and>
      (\<exists>b \<in> set ''._$/''. \<exists>a \<in> set ''._$/''.
         t ! (p - 1) = b \<and> take (length ds + 1) (drop p t) = ds @ [a])"
    by (simp only: pattern_only_numbers_iff option.inject)
  have r: "bare_at t p ds \<longleftrightarrow>
      ds \<noteq> [] \<and> list_all is_digit ds \<and> 0 < p \<and>
      (\<exists>b \<in> set ''._$/''. \<exists>a \<in> set ''._$/''.
         p - 1 < length t \<and> t ! (p - 1) = b \<and> take (length ds + 1) (drop p t) = ds @ [a])"
    unfolding bare_at_def k take_drop_pred [OF pos] ..
  show ?thesis
    unfolding m l r using pos lt' by blast
next
  case False
  have "\<not> bare_at t p ds"
  proof (cases "0 < p")
    case False
    then show ?thesis by (simp add: bare_at_def)
  next
    case pos: True
    with \<open>\<not> (0 < p \<and> p < length t)\<close> have ge: "length t \<le> p" by simp
    have k: "length ds + 2 = Suc (length ds + 1)" by simp
    show ?thesis
    proof
      assume "bare_at t p ds"
      then obtain b a where "take (length ds + 1) (drop p t) = ds @ [a]"
        unfolding bare_at_def k take_drop_pred [OF pos] by blast
      with ge show False by simp
    qed
  qed
  moreover have "match_at pattern_only_numbers t p = None"
  proof (cases "p < length t")
    case True
    with False have "p = 0" by simp
    with True show ?thesis
      by (simp add: match_at_def prev_at_def pattern_only_numbers_def)
  next
    case False
    then show ?thesis by (simp add: match_at_def)
  qed
  ultimately show ?thesis by simp
qed

lemma disciplines_upper: "d \<in> set disciplines \<Longrightarrow> upper d = d"
proof -
  have "list_all (\<lambda>d. upper d = d) disciplines"
    by code_simp
  then show "d \<in> set disciplines \<Longrightarrow> upper d = d"
    by (simp add: list_all_iff)
qed

lemma disciplines_nonempty: "d \<in> set disciplines \<Longrightarrow> d \<noteq> []"
  by (auto simp: disciplines_def)

lemma disciplines_prefix_free:
  "d \<in> set disciplines \<Longrightarrow> d' \<in> set disciplines \<Longrightarrow> take (length d) d' = d \<Longrightarrow> d = d'"
proof -
  have "list_all (\<lambda>d. list_all (\<lambda>d'. take (length d) d' = d \<longrightarrow> d = d') disciplines) disciplines"
    by code_simp
  then show "d \<in> set disciplines \<Longrightarrow> d' \<in> set disciplines \<Longrightarrow> take (length d) d' = d \<Longrightarrow> d = d'"
    by (simp add: list_all_iff)
qed

lemma ci_prefix_code:
  "d \<in> set disciplines \<Longrightarrow> ci_prefix d s \<longleftrightarrow> upper (take (length d) s) = d"
  using disciplines_upper [of d] by (simp add: ci_prefix_def upper_def)

lemma code_unique:
  assumes "d \<in> set disciplines" and "d' \<in> set disciplines"
    and "upper (take (length d) s) = d" and "upper (take (length d') s) = d'"
  shows "d = d'"
proof (cases "length d \<le> length d'")
  case True
  have "take (length d) d' = take (length d) (upper (take (length d') s))"
    using assms(4) by simp
  also have "\<dots> = upper (take (length d) s)"
    using True by (simp add: upper_def take_map min_def)
  finally show ?thesis
    using assms by (auto dest: disciplines_prefix_free)
next
  case False
  have "take (length d') d = take (length d') (upper (take (length d) s))"
    using assms(3) by simp
  also have "\<dots> = upper (take (length d') s)"
    using False by (simp add: upper_def take_map min_def)
  finally show ?thesis
    using assms disciplines_prefix_free [of d' d] by auto
qed

lemma code_at_iff:
  "match_at pattern_discipline t p = Some (g, n) \<longleftrightarrow>
     (\<exists>d. code_at t p d \<and> n = length d \<and> g = take n (drop p t))"
  (is "?L \<longleftrightarrow> ?R")
proof
  assume l: ?L
  then have lt: "p < length t"
    by (cases "p < length t") (simp_all add: match_at_def)
  with l have pd: "pattern_discipline (prev_at t p) (drop p t) = Some (g, n)"
    by (simp add: match_at_def)
  then obtain d where f: "find (\<lambda>d. ci_prefix d (drop p t)) disciplines = Some d"
    by (cases "find (\<lambda>d. ci_prefix d (drop p t)) disciplines") (simp_all add: pattern_discipline_def)
  with pd have gn: "g = take (length d) (drop p t)" "n = length d"
    by (auto simp: pattern_discipline_def)
  from f have dd: "d \<in> set disciplines" "ci_prefix d (drop p t)"
    unfolding find_Some_iff by (metis nth_mem)+
  then have "upper (take (length d) (drop p t)) = d"
    by (simp add: ci_prefix_code)
  with dd(1) gn show ?R
    unfolding code_at_def by auto
next
  assume ?R
  then obtain d where d: "d \<in> set disciplines" "upper (take (length d) (drop p t)) = d"
    and gn: "n = length d" "g = take n (drop p t)"
    by (auto simp: code_at_def)
  from d disciplines_nonempty [of d] have "drop p t \<noteq> []"
    by (auto simp: upper_def)
  then have lt: "p < length t" by simp
  from d have "\<exists>x \<in> set disciplines. ci_prefix x (drop p t)"
    by (auto simp: ci_prefix_code)
  then obtain d' where f: "find (\<lambda>d. ci_prefix d (drop p t)) disciplines = Some d'"
    by (cases "find (\<lambda>d. ci_prefix d (drop p t)) disciplines") (auto simp: find_None_iff)
  then have d': "d' \<in> set disciplines" "ci_prefix d' (drop p t)"
    by (auto simp: find_Some_iff)
  then have "upper (take (length d') (drop p t)) = d'"
    by (simp add: ci_prefix_code)
  with d d' have "d = d'"
    by (auto intro: code_unique)
  with f gn lt show ?L
    by (simp add: match_at_def pattern_discipline_def)
qed

lemma code_at_upper:
  "code_at t p d \<Longrightarrow> upper (take (length d) (drop p t)) = d"
  by (simp add: code_at_def)


lemma match_at_in_range: "match_at m t q \<noteq> None \<Longrightarrow> q < length t"
  by (cases "q < length t") (simp_all add: match_at_def)

lemma match_at_only:
  assumes "list_all (\<lambda>q. match_at m t q = None \<or> P q) [0..<length t]"
    and "match_at m t q \<noteq> None"
  shows "P q"
proof -
  from match_at_in_range [OF assms(2)] have "q \<in> set [0..<length t]" by simp
  with assms(1) have "match_at m t q = None \<or> P q"
    by (simp add: list_all_iff)
  with assms(2) show ?thesis
    by auto
qed

lemma upper_nonempty: "upper s = [] \<longleftrightarrow> s = []"
  by (simp add: upper_def)

lemma lower_nonempty: "lower s = [] \<longleftrightarrow> s = []"
  by (simp add: lower_def)

section \<open>Version inference\<close>


lemma marker_match: "marker_at t p ds \<Longrightarrow> match_at pattern_leading_v t p = Some (ds, length ds + 3)"
  by (simp add: marker_at_iff)

lemma marker_none: "(\<forall>ds. \<not> marker_at t p ds) \<longleftrightarrow> match_at pattern_leading_v t p = None"
proof (cases "match_at pattern_leading_v t p")
  case None
  then show ?thesis
    using marker_match [of t p] by auto
next
  case (Some a)
  obtain ds n where "a = (ds, n)" by (cases a)
  with Some show ?thesis
    using marker_at_iff [of t p ds n] by auto
qed

lemma bare_none: "(\<forall>ds. \<not> bare_at t p ds) \<longleftrightarrow> match_at pattern_only_numbers t p = None"
proof (cases "match_at pattern_only_numbers t p")
  case None
  then show ?thesis
    using bare_at_iff [of t p] by auto
next
  case (Some a)
  obtain ds n where "a = (ds, n)" by (cases a)
  with Some show ?thesis
    using bare_at_iff [of t p ds n] by auto
qed

lemma bare_atD:
  assumes "bare_at t p ds"
  shows "0 < p" and "t ! (p - 1) \<in> set ''._$/''" and "take (length ds) (drop p t) = ds"
    and "list_all is_digit ds" and "ds \<noteq> []"
proof -
  from assms show pos: "0 < p" and "list_all is_digit ds" and "ds \<noteq> []"
    by (simp_all add: bare_at_def)
  have k: "length ds + 2 = Suc (length ds + 1)" by simp
  from assms obtain b a where b: "b \<in> set ''._$/''" and "t ! (p - 1) = b"
    and t: "take (length ds + 1) (drop p t) = ds @ [a]"
    unfolding bare_at_def k take_drop_pred [OF pos] by blast
  then show "t ! (p - 1) \<in> set ''._$/''" by simp
  have "take (length ds) (take (length ds + 1) (drop p t)) = take (length ds) (ds @ [a])"
    by (simp only: t)
  then show "take (length ds) (drop p t) = ds"
    by (simp add: min_def)
qed

lemma bare_no_overlap:
  assumes "bare_at t p' ds'" and "bare_at t p ds" and "p' < p"
  shows "p' + length ds' \<le> p"
proof (rule ccontr)
  assume "\<not> p' + length ds' \<le> p"
  with assms(3) have j: "p - 1 - p' < length ds'" and e: "p' + (p - 1 - p') = p - 1"
    by auto
  have "p' \<le> length t"
  proof (rule ccontr)
    assume "\<not> p' \<le> length t"
    with bare_atD(3) [OF assms(1)] bare_atD(5) [OF assms(1)] show False by simp
  qed
  have "ds' ! (p - 1 - p') = take (length ds') (drop p' t) ! (p - 1 - p')"
    by (simp only: bare_atD(3) [OF assms(1)])
  also have "\<dots> = drop p' t ! (p - 1 - p')"
    using j by simp
  also have "\<dots> = t ! (p' + (p - 1 - p'))"
    using \<open>p' \<le> length t\<close> by (rule nth_drop)
  finally have "ds' ! (p - 1 - p') = t ! (p - 1)"
    by (simp only: e)
  moreover from bare_atD(4) [OF assms(1)] j have "is_digit (ds' ! (p - 1 - p'))"
    by (simp add: list_all_length)
  ultimately have "is_digit (t ! (p - 1))" by simp
  from digit_not_sep [OF this] bare_atD(2) [OF assms(2)] show False by simp
qed

lemma findall_all: "filter (\<lambda>_. True) (findall m t) = findall m t"
  by simp

lemma findVersion_marker_rightmost:
  assumes "marker_at t p ds"
    and "\<forall>q ds'. marker_at t q ds' \<longrightarrow> q = p \<or> q + length ds' + 3 \<le> p"
  shows "findVersion t = int_of_digits ds"
proof -
  have "filter (\<lambda>_. True) (findall pattern_leading_v t) \<noteq> [] \<and>
        last (filter (\<lambda>_. True) (findall pattern_leading_v t)) = ds"
  proof (rule findall_last_filter [OF marker_match [OF assms(1)]])
    fix p' g' n'
    assume lt: "p' < p" and "match_at pattern_leading_v t p' = Some (g', n')"
    then have mk: "marker_at t p' g'" and n': "n' = length g' + 3"
      by (simp_all add: marker_at_iff)
    from assms(2) mk have "p' = p \<or> p' + length g' + 3 \<le> p" by blast
    with lt n' show "p' + max 1 n' \<le> p"
      by simp
  next
    show True ..
  next
    fix q g' n'
    assume lt: "p < q" and "match_at pattern_leading_v t q = Some (g', n')"
    then have mk: "marker_at t q g'"
      by (simp add: marker_at_iff)
    from assms(2) mk have "q = p \<or> q + length g' + 3 \<le> p" by blast
    with lt show "\<not> True"
      by simp
  qed
  then show ?thesis
    by (simp add: findVersion_def Let_def)
qed

lemma findVersion_no_marker:
  assumes "\<forall>q ds'. \<not> marker_at t q ds'"
  shows "findall pattern_leading_v t = []"
proof -
  have "filter (\<lambda>_. True) (findall pattern_leading_v t) = []"
  proof (rule findall_filter_empty)
    fix q g n
    assume "match_at pattern_leading_v t q = Some (g, n)"
    then have "marker_at t q g" by (simp add: marker_at_iff)
    with assms show "\<not> True" by blast
  qed
  then show ?thesis by simp
qed

lemma findVersion_bare_rightmost:
  assumes "\<forall>q ds'. \<not> marker_at t q ds'" and "bare_at t p ds"
    and "\<forall>q ds'. bare_at t q ds' \<longrightarrow> q \<le> p"
  shows "findVersion t = int_of_digits ds"
proof -
  from assms(2) have m: "match_at pattern_only_numbers t p = Some (ds, length ds)"
    by (simp add: bare_at_iff)
  have "filter (\<lambda>f. f \<noteq> []) (findall pattern_only_numbers t) \<noteq> [] \<and>
        last (filter (\<lambda>f. f \<noteq> []) (findall pattern_only_numbers t)) = ds"
  proof (rule findall_last_filter [OF m])
    fix p' g' n'
    assume "p' < p" and "match_at pattern_only_numbers t p' = Some (g', n')"
    then have "bare_at t p' g'" and "n' = length g'" and "p' < p"
      by (simp_all add: bare_at_iff)
    with bare_no_overlap [OF _ assms(2)] bare_atD(5) [of t p' g'] show "p' + max 1 n' \<le> p"
      by (simp add: max_def)
  next
    from assms(2) show "ds \<noteq> []" by (rule bare_atD)
  next
    fix q g' n'
    assume lt: "p < q" and "match_at pattern_only_numbers t q = Some (g', n')"
    then have "bare_at t q g'"
      by (simp add: bare_at_iff)
    with assms(3) have "q \<le> p" by blast
    with lt show "\<not> g' \<noteq> []"
      by simp
  qed
  with findVersion_no_marker [OF assms(1)] show ?thesis
    by (simp add: findVersion_def Let_def)
qed

lemma findVersion_none:
  assumes "\<forall>q ds'. \<not> marker_at t q ds'" and "\<forall>q ds'. \<not> bare_at t q ds'"
  shows "findVersion t = - 1"
proof -
  have "filter (\<lambda>f. f \<noteq> []) (findall pattern_only_numbers t) = []"
  proof (rule findall_filter_empty)
    fix q g n
    assume "match_at pattern_only_numbers t q = Some (g, n)"
    then have "bare_at t q g" by (simp add: bare_at_iff)
    with assms(2) show "\<not> g \<noteq> []" by blast
  qed
  with findVersion_no_marker [OF assms(1)] show ?thesis
    by (simp add: findVersion_def Let_def)
qed

lemma from_existing_version_eq:
  "from_existing login filename = Inr sf \<Longrightarrow>
     version sf = (if findVersion filename = 0 then 1 else findVersion filename)"
  by (auto simp: from_existing_eq split: sum.splits if_splits)

lemma marker_span_match:
  "marker_span t = (\<lambda>p n. \<exists>g. match_at pattern_leading_v t p = Some (g, n))"
  by (intro ext) (auto simp: marker_span_def marker_at_iff)

lemma scanned_markers:
  assumes "scanned (marker_span t) S"
  shows "S = fst ` set (finditer pattern_leading_v 0 None t)"
proof (rule scanned_found)
  fix p g n
  assume "match_at pattern_leading_v t p = Some (g, n)"
  then show "0 < n" by (simp add: marker_at_iff)
next
  from assms show "scanned (\<lambda>p n. \<exists>g. match_at pattern_leading_v t p = Some (g, n)) S"
    by (simp only: marker_span_match)
qed

lemma scanned_markers_exist:
  assumes "marker_at t q0 ds0"
  shows "\<exists>S p. scanned (marker_span t) S \<and> p \<in> S \<and> (\<forall>q \<in> S. q \<le> p)"
proof -
  let ?xs = "finditer pattern_leading_v 0 None t"
  have "scanned (\<lambda>p n. \<exists>g. match_at pattern_leading_v t p = Some (g, n)) (fst ` set ?xs)"
    by (rule scanned_finditer) (simp add: marker_at_iff)
  then have sc: "scanned (marker_span t) (fst ` set ?xs)"
    by (simp only: marker_span_match)
  from marker_match [OF assms] have "match_at pattern_leading_v t q0 \<noteq> None" by simp
  from scan_cover [OF this] have ne: "?xs \<noteq> []" by auto
  then have "fst (last ?xs) \<in> fst ` set ?xs"
    by simp
  moreover have "\<forall>q \<in> fst ` set ?xs. q \<le> fst (last ?xs)"
    by (auto intro: finditer_last_max)
  ultimately show ?thesis
    using sc by blast
qed

lemma findVersion_scanned:
  assumes "scanned (marker_span t) S" and "p \<in> S" and "\<forall>q \<in> S. q \<le> p" and "marker_at t p ds"
  shows "findVersion t = int_of_digits ds"
proof -
  let ?xs = "finditer pattern_leading_v 0 None t"
  note S = scanned_markers [OF assms(1)]
  from assms(2) S obtain g n where f: "(p, g, n) \<in> set ?xs"
    by force
  from scan_sound [OF f] marker_match [OF assms(4)] have g: "g = ds"
    by simp
  have "filter (\<lambda>_. True) (findall pattern_leading_v t) \<noteq> [] \<and>
        last (filter (\<lambda>_. True) (findall pattern_leading_v t)) = g"
  proof (rule findall_last_filter_seen [OF f])
    show True ..
  next
    fix q g' n'
    assume "(q, g', n') \<in> set ?xs" and lt: "p < q"
    then have "q \<in> S"
      unfolding S by force
    with assms(3) lt show "\<not> True"
      by auto
  qed
  with g show ?thesis
    by (simp add: findVersion_def Let_def)
qed

text \<open>
  Claim C1, as amended. The markers seen are those of a scan from the left that
  resumes behind each marker it finds, so that a marker whose leading separator
  closes the marker seen before it is passed over. For the descriptor returned by
  \<^verbatim>\<open>from_existing\<close>, and whenever the inferred number is not zero:
  \<^item> if the file name contains an explicit version marker, the scan sees a last
    marker, and the version is the digit run of that marker, whatever bare digit
    runs occur;
  \<^item> this is the right-most marker when every other marker ends before that one
    starts, that is, when the right-most marker does not share its leading separator
    with the marker before it;
  \<^item> with no marker and some bare digit run delimited by \<open>. _ $ /\<close> on both
    sides, it is the right-most such run;
  \<^item> with neither, it is \<open>-1\<close>.
\<close>

theorem from_existing_version:
  assumes "from_existing login filename = Inr sf"
  shows "((\<exists>q ds0. marker_at filename q ds0) \<longrightarrow>
            (\<exists>S p. scanned (marker_span filename) S \<and> p \<in> S \<and> (\<forall>q \<in> S. q \<le> p))) \<and>
         (\<forall>S p ds. scanned (marker_span filename) S \<longrightarrow> p \<in> S \<longrightarrow> (\<forall>q \<in> S. q \<le> p) \<longrightarrow>
            marker_at filename p ds \<longrightarrow>
            int_of_digits ds \<noteq> 0 \<longrightarrow> version sf = int_of_digits ds) \<and>
         (\<forall>p ds. marker_at filename p ds \<longrightarrow>
            (\<forall>q ds'. marker_at filename q ds' \<longrightarrow> q = p \<or> q + length ds' + 3 \<le> p) \<longrightarrow>
            int_of_digits ds \<noteq> 0 \<longrightarrow> version sf = int_of_digits ds) \<and>
         ((\<forall>q ds'. \<not> marker_at filename q ds') \<longrightarrow>
            (\<forall>p ds. bare_at filename p ds \<longrightarrow>
               (\<forall>q ds'. bare_at filename q ds' \<longrightarrow> q \<le> p) \<longrightarrow>
               int_of_digits ds \<noteq> 0 \<longrightarrow> version sf = int_of_digits ds)) \<and>
         ((\<forall>q ds'. \<not> marker_at filename q ds') \<longrightarrow> (\<forall>q ds'. \<not> bare_at filename q ds') \<longrightarrow>
            version sf = - 1)"
proof (intro conjI allI impI)
  assume "\<exists>q ds0. marker_at filename q ds0"
  then obtain q ds0 where "marker_at filename q ds0" by blast
  then show "\<exists>S p. scanned (marker_span filename) S \<and> p \<in> S \<and> (\<forall>q \<in> S. q \<le> p)"
    by (rule scanned_markers_exist)
next
  fix S p ds
  assume "scanned (marker_span filename) S" and "p \<in> S" and "\<forall>q \<in> S. q \<le> p"
    and "marker_at filename p ds" and "int_of_digits ds \<noteq> 0"
  with findVersion_scanned [of filename S p ds] from_existing_version_eq [OF assms]
  show "version sf = int_of_digits ds" by simp
next
  fix p ds
  assume "marker_at filename p ds"
    and "\<forall>q ds'. marker_at filename q ds' \<longrightarrow> q = p \<or> q + length ds' + 3 \<le> p"
    and "int_of_digits ds \<noteq> 0"
  with findVersion_marker_rightmost [of filename p ds] from_existing_version_eq [OF assms]
  show "version sf = int_of_digits ds" by simp
next
  fix p ds
  assume "\<forall>q ds'. \<not> marker_at filename q ds'" and "bare_at filename p ds"
    and "\<forall>q ds'. bare_at filename q ds' \<longrightarrow> q \<le> p" and "int_of_digits ds \<noteq> 0"
  with findVersion_bare_rightmost [of filename p ds] from_existing_version_eq [OF assms]
  show "version sf = int_of_digits ds" by simp
next
  assume "\<forall>q ds'. \<not> marker_at filename q ds'" and "\<forall>q ds'. \<not> bare_at filename q ds'"
  with findVersion_none [of filename] from_existing_version_eq [OF assms]
  show "version sf = - 1" by simp
qed

theorem from_existing_version_witness:
  "from_existing ''andres-weber'' ''a_v5_v0_b.ma'' =
     Inr \<lparr> description = ''unititled'', discipline = ''MDL'', version = 5, optional = None,
           user = ''v5'', extension = ''ma'' \<rparr> \<and>
   marker_at ''a_v5_v0_b.ma'' 1 ''5'' \<and> marker_at ''a_v5_v0_b.ma'' 4 ''0'' \<and>
   scanned (marker_span ''a_v5_v0_b.ma'') {1} \<and> int_of_digits ''5'' = 5 \<and>
   version \<lparr> description = ''unititled'', discipline = ''MDL'', version = 5, optional = None,
             user = ''v5'', extension = ''ma'' \<rparr> = int_of_digits ''5''"
proof -
  let ?fn = "''a_v5_v0_b.ma''"
  have h: "from_existing ''andres-weber'' ?fn =
     Inr \<lparr> description = ''unititled'', discipline = ''MDL'', version = 5, optional = None,
           user = ''v5'', extension = ''ma'' \<rparr>"
    by code_simp
  have mk: "marker_at ?fn 1 ''5''"
    by code_simp
  have mk': "marker_at ?fn 4 ''0''"
    by code_simp
  have e: "list_all (\<lambda>q. match_at pattern_leading_v ?fn q = None \<or> q = 1 \<or> q = 4) [0..<length ?fn]"
    by code_simp
  have m4: "match_at pattern_leading_v ?fn 4 = Some (''0'', 4)"
    by code_simp
  have sp1: "marker_span ?fn 1 4"
    unfolding marker_span_def using mk by auto
  have sp: "q = 1 \<or> (q = 4 \<and> n = 4)" if "marker_span ?fn q n" for q n
  proof -
    from that obtain g where g: "match_at pattern_leading_v ?fn q = Some (g, n)"
      by (simp only: marker_span_match) blast
    then have "match_at pattern_leading_v ?fn q \<noteq> None" by simp
    from match_at_only [OF e this] have "q = 1 \<or> q = 4" .
    with g m4 show ?thesis by auto
  qed
  have sc: "scanned (marker_span ?fn) {1}"
    unfolding scanned_def
  proof (intro conjI ballI allI impI)
    fix p :: nat
    assume "p \<in> {1}"
    with sp1 show "\<exists>n. marker_span ?fn p n" by auto
  next
    fix p p' n :: nat
    assume "p \<in> {1}" "p' \<in> {1}" "p' < p"
    then show "p' + n \<le> p" by simp
  next
    fix q n
    assume "marker_span ?fn q n"
    from sp [OF this] sp1 show "\<exists>p \<in> {1}. \<exists>k. marker_span ?fn p k \<and> p \<le> q \<and> q < p + k"
      by auto
  qed
  have mem: "(1::nat) \<in> {1}" by simp
  have top: "q \<le> 1" if "q \<in> {1::nat}" for q
    using that by simp
  have v: "int_of_digits ''5'' = 5"
    by code_simp
  then have nz: "int_of_digits ''5'' \<noteq> 0" by simp
  from from_existing_version [OF h, THEN conjunct2, THEN conjunct1, rule_format, OF sc mem top mk nz]
    h mk mk' sc v
  show ?thesis by simp
qed

text \<open>
  Claim C1 as stated fails. In \<open>a_v1_v2_b.ma\<close> the markers are \<open>_v1_\<close> at
  position 1 and \<open>_v2_\<close> at position 4; the right-most marker has the digit run 2.
  The scan consumes the separator at position 4 as the end of \<open>_v1_\<close>, does not see
  \<open>_v2_\<close>, and the inferred version is 1.
\<close>

theorem from_existing_version_counterexample:
  "from_existing ''andres-weber'' ''a_v1_v2_b.ma'' =
     Inr \<lparr> description = ''unititled'', discipline = ''MDL'', version = 1, optional = None,
           user = ''v1'', extension = ''ma'' \<rparr> \<and>
   map (match_at pattern_leading_v ''a_v1_v2_b.ma'') [0..<12] =
     [None, Some (''1'', 4), None, None, Some (''2'', 4), None, None, None, None, None, None, None] \<and>
   marker_at ''a_v1_v2_b.ma'' 1 ''1'' \<and> marker_at ''a_v1_v2_b.ma'' 4 ''2'' \<and>
   int_of_digits ''2'' = 2"
  by code_simp

text \<open>
  The constructor stores \<^verbatim>\<open>version or 1\<close>: an inferred version of zero is
  replaced by 1.
\<close>

lemma from_existing_version_zero_example:
  "findVersion ''a_v000_b.ma'' = 0 \<and>
   from_existing ''andres-weber'' ''a_v000_b.ma'' =
     Inr \<lparr> description = ''unititled'', discipline = ''MDL'', version = 1, optional = None,
           user = ''aw'', extension = ''ma'' \<rparr>"
  by code_simp

section \<open>Discipline inference\<close>


lemma code_match:
  "code_at t p d \<Longrightarrow> match_at pattern_discipline t p = Some (take (length d) (drop p t), length d)"
  unfolding code_at_iff by blast

lemma findDiscipline_rightmost:
  assumes "code_at t p d"
    and "\<forall>q d'. code_at t q d' \<longrightarrow> q = p \<or> q + length d' \<le> p"
  shows "findDiscipline t = d"
proof -
  let ?g = "take (length d) (drop p t)"
  have "filter (\<lambda>_. True) (findall pattern_discipline t) \<noteq> [] \<and>
        last (filter (\<lambda>_. True) (findall pattern_discipline t)) = ?g"
  proof (rule findall_last_filter [OF code_match [OF assms(1)]])
    fix p' g' n'
    assume lt: "p' < p" and "match_at pattern_discipline t p' = Some (g', n')"
    then obtain d' where d': "code_at t p' d'" and n': "n' = length d'"
      unfolding code_at_iff by blast
    from assms(2) d' have "p' = p \<or> p' + length d' \<le> p" by blast
    moreover from d' have "d' \<noteq> []"
      by (simp add: code_at_def disciplines_nonempty)
    then have "max 1 (length d') = length d'" by (cases d') simp_all
    ultimately show "p' + max 1 n' \<le> p"
      using lt n' by simp
  next
    show True ..
  next
    fix q g' n'
    assume lt: "p < q" and "match_at pattern_discipline t q = Some (g', n')"
    then obtain d' where d': "code_at t q d'"
      unfolding code_at_iff by blast
    from assms(2) d' have "q = p \<or> q + length d' \<le> p" by blast
    with lt show "\<not> True" by simp
  qed
  moreover from assms(1) have "upper ?g = d"
    by (simp add: code_at_def)
  ultimately show ?thesis
    by (simp add: findDiscipline_def Let_def)
qed

lemma findDiscipline_none:
  assumes "\<forall>q d. \<not> code_at t q d"
  shows "findDiscipline t = []"
proof -
  have "filter (\<lambda>_. True) (findall pattern_discipline t) = []"
  proof (rule findall_filter_empty)
    fix q g n
    assume "match_at pattern_discipline t q = Some (g, n)"
    then obtain d where "code_at t q d"
      unfolding code_at_iff by blast
    with assms show "\<not> True" by blast
  qed
  then show ?thesis
    by (simp add: findDiscipline_def)
qed

lemma from_existing_discipline_eq:
  "from_existing login filename = Inr sf \<Longrightarrow>
     discipline sf = (if findDiscipline filename = [] then ''MDL'' else findDiscipline filename)"
  by (auto simp: from_existing_eq split: sum.splits if_splits)

lemma code_span_match:
  "code_span t = (\<lambda>p n. \<exists>g. match_at pattern_discipline t p = Some (g, n))"
  by (intro ext) (auto simp: code_span_def code_at_iff)

lemma code_len_pos: "match_at pattern_discipline t p = Some (g, n) \<Longrightarrow> 0 < n"
proof -
  assume "match_at pattern_discipline t p = Some (g, n)"
  then obtain d where "code_at t p d" and "n = length d"
    unfolding code_at_iff by blast
  with disciplines_nonempty [of d] show "0 < n"
    by (simp add: code_at_def)
qed

lemma scanned_codes:
  assumes "scanned (code_span t) S"
  shows "S = fst ` set (finditer pattern_discipline 0 None t)"
proof (rule scanned_found)
  fix p g n
  assume "match_at pattern_discipline t p = Some (g, n)"
  then show "0 < n" by (rule code_len_pos)
next
  from assms show "scanned (\<lambda>p n. \<exists>g. match_at pattern_discipline t p = Some (g, n)) S"
    by (simp only: code_span_match)
qed

lemma scanned_codes_exist:
  assumes "code_at t q0 d0"
  shows "\<exists>S p. scanned (code_span t) S \<and> p \<in> S \<and> (\<forall>q \<in> S. q \<le> p)"
proof -
  let ?xs = "finditer pattern_discipline 0 None t"
  have "scanned (\<lambda>p n. \<exists>g. match_at pattern_discipline t p = Some (g, n)) (fst ` set ?xs)"
    by (rule scanned_finditer) (rule code_len_pos)
  then have sc: "scanned (code_span t) (fst ` set ?xs)"
    by (simp only: code_span_match)
  from code_match [OF assms] have "match_at pattern_discipline t q0 \<noteq> None" by simp
  from scan_cover [OF this] have ne: "?xs \<noteq> []" by auto
  then have "fst (last ?xs) \<in> fst ` set ?xs"
    by simp
  moreover have "\<forall>q \<in> fst ` set ?xs. q \<le> fst (last ?xs)"
    by (auto intro: finditer_last_max)
  ultimately show ?thesis
    using sc by blast
qed

lemma findDiscipline_scanned:
  assumes "scanned (code_span t) S" and "p \<in> S" and "\<forall>q \<in> S. q \<le> p" and "code_at t p d"
  shows "findDiscipline t = d"
proof -
  let ?xs = "finditer pattern_discipline 0 None t"
  note S = scanned_codes [OF assms(1)]
  from assms(2) S obtain g n where f: "(p, g, n) \<in> set ?xs"
    by force
  from scan_sound [OF f] code_match [OF assms(4)] have g: "g = take (length d) (drop p t)"
    by auto
  have "filter (\<lambda>_. True) (findall pattern_discipline t) \<noteq> [] \<and>
        last (filter (\<lambda>_. True) (findall pattern_discipline t)) = g"
  proof (rule findall_last_filter_seen [OF f])
    show True ..
  next
    fix q g' n'
    assume "(q, g', n') \<in> set ?xs" and lt: "p < q"
    then have "q \<in> S"
      unfolding S by force
    with assms(3) lt show "\<not> True"
      by auto
  qed
  moreover from assms(4) g have "upper g = d"
    by (simp add: code_at_def)
  ultimately show ?thesis
    by (simp add: findDiscipline_def Let_def)
qed

text \<open>
  Claim C2, as amended. The occurrences seen are those of a scan from the left that
  resumes behind each code it finds, so that a code starting inside the code seen
  before it is passed over. For the descriptor returned by \<^verbatim>\<open>from_existing\<close>:
  \<^item> if some discipline code occurs in the file name, in either case, the scan sees a
    last occurrence, and the discipline is the code of that occurrence, in upper
    case;
  \<^item> this is the right-most occurrence when every other occurrence ends before that
    one starts (no occurrence overlaps it);
  \<^item> if no code occurs, the discipline is the default \<open>MDL\<close>.
\<close>

theorem from_existing_discipline:
  assumes "from_existing login filename = Inr sf"
  shows "((\<exists>q d0. code_at filename q d0) \<longrightarrow>
            (\<exists>S p. scanned (code_span filename) S \<and> p \<in> S \<and> (\<forall>q \<in> S. q \<le> p))) \<and>
         (\<forall>S p d. scanned (code_span filename) S \<longrightarrow> p \<in> S \<longrightarrow> (\<forall>q \<in> S. q \<le> p) \<longrightarrow>
            code_at filename p d \<longrightarrow> discipline sf = d) \<and>
         (\<forall>p d. code_at filename p d \<longrightarrow>
            (\<forall>q d'. code_at filename q d' \<longrightarrow> q = p \<or> q + length d' \<le> p) \<longrightarrow>
            discipline sf = d) \<and>
         ((\<forall>q d. \<not> code_at filename q d) \<longrightarrow> discipline sf = ''MDL'')"
proof (intro conjI allI impI)
  assume "\<exists>q d0. code_at filename q d0"
  then obtain q d0 where "code_at filename q d0" by blast
  then show "\<exists>S p. scanned (code_span filename) S \<and> p \<in> S \<and> (\<forall>q \<in> S. q \<le> p)"
    by (rule scanned_codes_exist)
next
  fix S p d
  assume "scanned (code_span filename) S" and "p \<in> S" and "\<forall>q \<in> S. q \<le> p"
    and d: "code_at filename p d"
  then have "findDiscipline filename = d"
    by (rule findDiscipline_scanned)
  moreover from d have "d \<noteq> []"
    by (simp add: code_at_def disciplines_nonempty)
  ultimately show "discipline sf = d"
    using from_existing_discipline_eq [OF assms] by simp
next
  fix p d
  assume d: "code_at filename p d"
    and "\<forall>q d'. code_at filename q d' \<longrightarrow> q = p \<or> q + length d' \<le> p"
  then have "findDiscipline filename = d"
    by (rule findDiscipline_rightmost)
  moreover from d have "d \<noteq> []"
    by (simp add: code_at_def disciplines_nonempty)
  ultimately show "discipline sf = d"
    using from_existing_discipline_eq [OF assms] by simp
next
  assume "\<forall>q d. \<not> code_at filename q d"
  then have "findDiscipline filename = []"
    by (rule findDiscipline_none)
  with from_existing_discipline_eq [OF assms] show "discipline sf = ''MDL''"
    by simp
qed

theorem from_existing_discipline_witness:
  "from_existing ''andres-weber'' ''foo_techanim_v001_aw.ma'' =
     Inr \<lparr> description = ''unititled'', discipline = ''TECHANIM'', version = 1, optional = None,
           user = ''aw'', extension = ''ma'' \<rparr> \<and>
   code_at ''foo_techanim_v001_aw.ma'' 4 ''TECHANIM'' \<and>
   code_at ''foo_techanim_v001_aw.ma'' 8 ''ANIM'' \<and>
   scanned (code_span ''foo_techanim_v001_aw.ma'') {4} \<and>
   discipline \<lparr> description = ''unititled'', discipline = ''TECHANIM'', version = 1,
                optional = None, user = ''aw'', extension = ''ma'' \<rparr> = ''TECHANIM''"
proof -
  let ?fn = "''foo_techanim_v001_aw.ma''"
  have h: "from_existing ''andres-weber'' ?fn =
     Inr \<lparr> description = ''unititled'', discipline = ''TECHANIM'', version = 1, optional = None,
           user = ''aw'', extension = ''ma'' \<rparr>"
    by code_simp
  have c1: "code_at ?fn 4 ''TECHANIM''" by code_simp
  have c2: "code_at ?fn 8 ''ANIM''" by code_simp
  have e: "list_all (\<lambda>q. match_at pattern_discipline ?fn q = None \<or> q = 4 \<or> q = 8) [0..<length ?fn]"
    by code_simp
  have m4: "match_at pattern_discipline ?fn 4 = Some (''techanim'', 8)" by code_simp
  have m8: "match_at pattern_discipline ?fn 8 = Some (''anim'', 4)" by code_simp
  have sp4: "code_span ?fn 4 8"
    unfolding code_span_def using c1 by auto
  have sp: "(q = 4 \<and> n = 8) \<or> (q = 8 \<and> n = 4)" if "code_span ?fn q n" for q n
  proof -
    from that obtain g where g: "match_at pattern_discipline ?fn q = Some (g, n)"
      by (simp only: code_span_match) blast
    then have "match_at pattern_discipline ?fn q \<noteq> None" by simp
    from match_at_only [OF e this] have "q = 4 \<or> q = 8" .
    with g m4 m8 show ?thesis by auto
  qed
  have sc: "scanned (code_span ?fn) {4}"
    unfolding scanned_def
  proof (intro conjI ballI allI impI)
    fix p :: nat
    assume "p \<in> {4}"
    with sp4 show "\<exists>n. code_span ?fn p n" by auto
  next
    fix p p' n :: nat
    assume "p \<in> {4}" "p' \<in> {4}" "p' < p"
    then show "p' + n \<le> p" by simp
  next
    fix q n
    assume "code_span ?fn q n"
    from sp [OF this] sp4 show "\<exists>p \<in> {4}. \<exists>k. code_span ?fn p k \<and> p \<le> q \<and> q < p + k"
      by auto
  qed
  have mem: "(4::nat) \<in> {4}" by simp
  have top: "q \<le> 4" if "q \<in> {4::nat}" for q
    using that by simp
  from from_existing_discipline [OF h, THEN conjunct2, THEN conjunct1, rule_format, OF sc mem top c1]
    h c1 c2 sc
  show ?thesis by simp
qed

text \<open>
  Claim C2 as stated fails when occurrences overlap. In \<open>hammdl_v001_aw.ma\<close> the
  code MM occurs at position 2 and MDL at position 3; the right-most occurrence is
  MDL, but the scan matches \<open>mm\<close> first, resumes behind it, and the discipline is
  MM.
\<close>


theorem from_existing_discipline_counterexample:
  "from_existing ''andres-weber'' ''hammdl_v001_aw.ma'' =
     Inr \<lparr> description = ''unititled'', discipline = ''MM'', version = 1, optional = None,
           user = ''aw'', extension = ''ma'' \<rparr> \<and>
   code_at ''hammdl_v001_aw.ma'' 2 ''MM'' \<and> code_at ''hammdl_v001_aw.ma'' 3 ''MDL'' \<and>
   map (match_at pattern_discipline ''hammdl_v001_aw.ma'') [0..<17] =
     [None, None, Some (''mm'', 2), Some (''mdl'', 3), None, None, None, None, None, None, None,
      None, None, None, None, None, None]"
  by code_simp

section \<open>Initials inference\<close>

text \<open>
  The character classes of \<^verbatim>\<open>pattern_username\<close> also hold \<open>^\<close> and \<open>$\<close> as
  literal characters. The statements below are about file names in which neither
  occurs; there the pattern finds exactly the tokens delimited by \<open>.\<close> or \<open>_\<close>.
\<close>

lemma token_match:
  assumes "CHR ''^'' \<notin> set t" and "CHR ''$'' \<notin> set t" and "token_at t p tok"
  shows "match_at pattern_username t p = Some (tok, 4)"
  using assms(3) by (simp add: token_at_iff [OF assms(1,2)])

lemma token_length: "token_at t p tok \<Longrightarrow> tok \<noteq> []"
  by (auto simp: token_at_def)

lemma token_span_match:
  assumes "CHR ''^'' \<notin> set t" and "CHR ''$'' \<notin> set t"
  shows "token_span t = (\<lambda>p n. \<exists>g. match_at pattern_username t p = Some (g, n))"
  by (intro ext) (auto simp: token_span_def token_at_iff [OF assms])

lemma scanned_tokens:
  assumes "CHR ''^'' \<notin> set t" and "CHR ''$'' \<notin> set t" and "scanned (token_span t) S"
  shows "S = fst ` set (finditer pattern_username 0 None t)"
proof (rule scanned_found)
  fix p g n
  assume "match_at pattern_username t p = Some (g, n)"
  then show "0 < n" by (simp add: token_at_iff [OF assms(1,2)])
next
  from assms(3) show "scanned (\<lambda>p n. \<exists>g. match_at pattern_username t p = Some (g, n)) S"
    by (simp only: token_span_match [OF assms(1,2)])
qed

lemma scanned_tokens_exist:
  assumes "CHR ''^'' \<notin> set t" and "CHR ''$'' \<notin> set t"
  shows "\<exists>S. scanned (token_span t) S"
proof -
  have "scanned (\<lambda>p n. \<exists>g. match_at pattern_username t p = Some (g, n))
          (fst ` set (finditer pattern_username 0 None t))"
    by (rule scanned_finditer) (simp add: token_at_iff [OF assms])
  then have "scanned (token_span t) (fst ` set (finditer pattern_username 0 None t))"
    by (simp only: token_span_match [OF assms])
  then show ?thesis ..
qed

lemma findUser_scanned:
  assumes "CHR ''^'' \<notin> set t" and "CHR ''$'' \<notin> set t"
    and "scanned (token_span t) S" and "p \<in> S" and "token_at t p tok"
    and "upper tok \<notin> set disciplines"
    and "\<forall>q \<in> S. \<forall>tok'. p < q \<longrightarrow> token_at t q tok' \<longrightarrow> upper tok' \<in> set disciplines"
  shows "findUser t = lower tok"
proof -
  let ?xs = "finditer pattern_username 0 None t"
  note S = scanned_tokens [OF assms(1-3)]
  from assms(4) S obtain g n where f: "(p, g, n) \<in> set ?xs"
    by force
  from scan_sound [OF f] token_match [OF assms(1,2,5)] have g: "g = tok"
    by simp
  have "filter (\<lambda>m. upper m \<notin> set disciplines) (findall pattern_username t) \<noteq> [] \<and>
        last (filter (\<lambda>m. upper m \<notin> set disciplines) (findall pattern_username t)) = g"
  proof (rule findall_last_filter_seen [OF f])
    from assms(6) g show "upper g \<notin> set disciplines" by simp
  next
    fix q g' n'
    assume f': "(q, g', n') \<in> set ?xs" and lt: "p < q"
    then have "q \<in> S"
      unfolding S by force
    moreover from scan_sound [OF f'] have "token_at t q g'"
      by (simp add: token_at_iff [OF assms(1,2)])
    ultimately have "upper g' \<in> set disciplines"
      using assms(7) lt by blast
    then show "\<not> upper g' \<notin> set disciplines" by simp
  qed
  with g show ?thesis
    by (simp add: findUser_def)
qed

lemma findUser_scanned_none:
  assumes "CHR ''^'' \<notin> set t" and "CHR ''$'' \<notin> set t"
    and "scanned (token_span t) S"
    and "\<forall>q \<in> S. \<forall>tok. token_at t q tok \<longrightarrow> upper tok \<in> set disciplines"
  shows "findUser t = []"
proof -
  let ?xs = "finditer pattern_username 0 None t"
  note S = scanned_tokens [OF assms(1-3)]
  have "filter (\<lambda>m. upper m \<notin> set disciplines) (findall pattern_username t) = []"
  proof (rule findall_filter_unseen)
    fix q g n
    assume f: "(q, g, n) \<in> set ?xs"
    then have "q \<in> S"
      unfolding S by force
    moreover from scan_sound [OF f] have "token_at t q g"
      by (simp add: token_at_iff [OF assms(1,2)])
    ultimately have "upper g \<in> set disciplines"
      using assms(4) by blast
    then show "\<not> upper g \<notin> set disciplines" by simp
  qed
  then show ?thesis
    by (simp add: findUser_def)
qed

lemma findUser_rightmost:
  assumes "CHR ''^'' \<notin> set t" and "CHR ''$'' \<notin> set t"
    and "token_at t p tok" and "upper tok \<notin> set disciplines"
    and "\<forall>q tok'. token_at t q tok' \<longrightarrow> q < p \<longrightarrow> q + 4 \<le> p"
    and "\<forall>q tok'. token_at t q tok' \<longrightarrow> p < q \<longrightarrow> upper tok' \<in> set disciplines"
  shows "findUser t = lower tok"
proof -
  have "filter (\<lambda>m. upper m \<notin> set disciplines) (findall pattern_username t) \<noteq> [] \<and>
        last (filter (\<lambda>m. upper m \<notin> set disciplines) (findall pattern_username t)) = tok"
  proof (rule findall_last_filter [OF token_match [OF assms(1,2,3)]])
    fix p' g' n'
    assume lt: "p' < p" and "match_at pattern_username t p' = Some (g', n')"
    then have tk: "token_at t p' g'" and n': "n' = 4"
      by (simp_all add: token_at_iff [OF assms(1,2)])
    from assms(5) tk lt have "p' + 4 \<le> p" by blast
    with n' show "p' + max 1 n' \<le> p" by simp
  next
    show "upper tok \<notin> set disciplines" by (rule assms(4))
  next
    fix q g' n'
    assume lt: "p < q" and "match_at pattern_username t q = Some (g', n')"
    then have "token_at t q g'"
      by (simp add: token_at_iff [OF assms(1,2)])
    with assms(6) lt have "upper g' \<in> set disciplines" by blast
    then show "\<not> upper g' \<notin> set disciplines" by simp
  qed
  then show ?thesis
    by (simp add: findUser_def)
qed

lemma findUser_none:
  assumes "CHR ''^'' \<notin> set t" and "CHR ''$'' \<notin> set t"
    and "\<forall>q tok. token_at t q tok \<longrightarrow> upper tok \<in> set disciplines"
  shows "findUser t = []"
proof -
  have "filter (\<lambda>m. upper m \<notin> set disciplines) (findall pattern_username t) = []"
  proof (rule findall_filter_empty)
    fix q g n
    assume "match_at pattern_username t q = Some (g, n)"
    then have "token_at t q g" by (simp add: token_at_iff [OF assms(1,2)])
    with assms(3) have "upper g \<in> set disciplines" by blast
    then show "\<not> upper g \<notin> set disciplines" by simp
  qed
  then show ?thesis
    by (simp add: findUser_def)
qed

lemma from_existing_user_eq:
  assumes "from_existing login filename = Inr sf"
  shows "(findUser filename \<noteq> [] \<longrightarrow> user sf = findUser filename) \<and>
         (findUser filename = [] \<longrightarrow> getuser_initials login = Inr (user sf))"
  using assms by (auto simp: from_existing_eq split: sum.splits if_splits)

text \<open>
  Claim C3, as amended. A token is two word characters with a separator (\<open>.\<close> or
  \<open>_\<close>) on both sides; it qualifies when, in upper case, it is not a discipline
  code. The tokens seen are those of a scan from the left that resumes behind each
  token it finds, so that a token starting inside the token seen before it (sharing
  its separator) is passed over. For a file name without \<open>^\<close> and \<open>$\<close> and the
  descriptor returned by \<^verbatim>\<open>from_existing\<close>, whose author tag is the field \<open>user\<close>:
  \<^item> the tag is the last qualifying token among the tokens seen, in lower case;
  \<^item> when no token seen qualifies, the tag is the initials made from the login name
    of the current user, never the empty string; so it is in particular when the
    file name has no qualifying token at all;
  \<^item> the tag is the right-most qualifying token of the file name when no token
    starts within the three positions before that one (none overlaps it from the
    left).
\<close>

theorem from_existing_user:
  assumes "from_existing login filename = Inr sf"
    and "CHR ''^'' \<notin> set filename" and "CHR ''$'' \<notin> set filename"
  shows "(\<exists>S. scanned (token_span filename) S) \<and>
         (\<forall>S p tok. scanned (token_span filename) S \<longrightarrow> p \<in> S \<longrightarrow>
            token_at filename p tok \<longrightarrow> upper tok \<notin> set disciplines \<longrightarrow>
            (\<forall>q \<in> S. \<forall>tok'. p < q \<longrightarrow> token_at filename q tok' \<longrightarrow> upper tok' \<in> set disciplines) \<longrightarrow>
            user sf = lower tok) \<and>
         (\<forall>S. scanned (token_span filename) S \<longrightarrow>
            (\<forall>q \<in> S. \<forall>tok. token_at filename q tok \<longrightarrow> upper tok \<in> set disciplines) \<longrightarrow>
            getuser_initials login = Inr (user sf)) \<and>
         (\<forall>p tok. token_at filename p tok \<longrightarrow> upper tok \<notin> set disciplines \<longrightarrow>
            (\<forall>q tok'. token_at filename q tok' \<longrightarrow> q < p \<longrightarrow> q + 4 \<le> p) \<longrightarrow>
            (\<forall>q tok'. token_at filename q tok' \<longrightarrow> p < q \<longrightarrow> upper tok' \<in> set disciplines) \<longrightarrow>
            user sf = lower tok) \<and>
         ((\<forall>q tok. token_at filename q tok \<longrightarrow> upper tok \<in> set disciplines) \<longrightarrow>
            getuser_initials login = Inr (user sf))"
proof (intro conjI allI impI)
  from assms(2,3) show "\<exists>S. scanned (token_span filename) S"
    by (rule scanned_tokens_exist)
next
  fix S p tok
  assume "scanned (token_span filename) S" and "p \<in> S" and tk: "token_at filename p tok"
    and "upper tok \<notin> set disciplines"
    and "\<forall>q \<in> S. \<forall>tok'. p < q \<longrightarrow> token_at filename q tok' \<longrightarrow> upper tok' \<in> set disciplines"
  with assms(2,3) have "findUser filename = lower tok"
    by (rule findUser_scanned)
  moreover from token_length [OF tk] have "lower tok \<noteq> []"
    by (simp add: lower_nonempty)
  ultimately show "user sf = lower tok"
    using from_existing_user_eq [OF assms(1)] by simp
next
  fix S
  assume "scanned (token_span filename) S"
    and "\<forall>q \<in> S. \<forall>tok. token_at filename q tok \<longrightarrow> upper tok \<in> set disciplines"
  with assms(2,3) have "findUser filename = []"
    by (rule findUser_scanned_none)
  with from_existing_user_eq [OF assms(1)] show "getuser_initials login = Inr (user sf)"
    by simp
next
  fix p tok
  assume tk: "token_at filename p tok" and "upper tok \<notin> set disciplines"
    and "\<forall>q tok'. token_at filename q tok' \<longrightarrow> q < p \<longrightarrow> q + 4 \<le> p"
    and "\<forall>q tok'. token_at filename q tok' \<longrightarrow> p < q \<longrightarrow> upper tok' \<in> set disciplines"
  with assms(2,3) have "findUser filename = lower tok"
    by (rule findUser_rightmost)
  moreover from token_length [OF tk] have "lower tok \<noteq> []"
    by (simp add: lower_nonempty)
  ultimately show "user sf = lower tok"
    using from_existing_user_eq [OF assms(1)] by simp
next
  assume "\<forall>q tok. token_at filename q tok \<longrightarrow> upper tok \<in> set disciplines"
  with assms(2,3) have "findUser filename = []"
    by (rule findUser_none)
  with from_existing_user_eq [OF assms(1)] show "getuser_initials login = Inr (user sf)"
    by simp
qed

theorem from_existing_user_witness:
  "from_existing ''jane-doe'' ''foo_MDL_001_aw.ma'' =
     Inr \<lparr> description = ''unititled'', discipline = ''MDL'', version = 1, optional = None,
           user = ''aw'', extension = ''ma'' \<rparr> \<and>
   CHR ''^'' \<notin> set ''foo_MDL_001_aw.ma'' \<and> CHR ''$'' \<notin> set ''foo_MDL_001_aw.ma'' \<and>
   scanned (token_span ''foo_MDL_001_aw.ma'') {11} \<and>
   token_at ''foo_MDL_001_aw.ma'' 11 ''aw'' \<and> upper ''aw'' \<notin> set disciplines \<and>
   user \<lparr> description = ''unititled'', discipline = ''MDL'', version = 1, optional = None,
          user = ''aw'', extension = ''ma'' \<rparr> = lower ''aw'' \<and>
   from_existing ''jane-doe'' ''char_fx_aw.ma'' =
     Inr \<lparr> description = ''unititled'', discipline = ''FX'', version = - 1, optional = None,
           user = ''jd'', extension = ''ma'' \<rparr> \<and>
   CHR ''^'' \<notin> set ''char_fx_aw.ma'' \<and> CHR ''$'' \<notin> set ''char_fx_aw.ma'' \<and>
   scanned (token_span ''char_fx_aw.ma'') {4} \<and>
   token_at ''char_fx_aw.ma'' 4 ''fx'' \<and> token_at ''char_fx_aw.ma'' 7 ''aw'' \<and>
   upper ''fx'' \<in> set disciplines \<and>
   getuser_initials ''jane-doe'' =
     Inr (user \<lparr> description = ''unititled'', discipline = ''FX'', version = - 1, optional = None,
                 user = ''jd'', extension = ''ma'' \<rparr>)"
proof -
  let ?fn = "''foo_MDL_001_aw.ma''"
  have h: "from_existing ''jane-doe'' ?fn =
     Inr \<lparr> description = ''unititled'', discipline = ''MDL'', version = 1, optional = None,
           user = ''aw'', extension = ''ma'' \<rparr>"
    by code_simp
  have n1: "CHR ''^'' \<notin> set ?fn" by simp
  have n2: "CHR ''$'' \<notin> set ?fn" by simp
  have tk: "token_at ?fn 11 ''aw''" by code_simp
  have nd: "upper ''aw'' \<notin> set disciplines" by code_simp
  have e: "list_all (\<lambda>q. match_at pattern_username ?fn q = None \<or> q = 11) [0..<length ?fn]"
    by code_simp
  have sp11: "token_span ?fn 11 4"
    unfolding token_span_def using tk by auto
  have sp: "q = 11" if "token_span ?fn q n" for q n
  proof -
    from that obtain g where "match_at pattern_username ?fn q = Some (g, n)"
      by (simp only: token_span_match [OF n1 n2]) blast
    then have "match_at pattern_username ?fn q \<noteq> None" by simp
    from match_at_only [OF e this] show ?thesis .
  qed
  have sc: "scanned (token_span ?fn) {11}"
    unfolding scanned_def
  proof (intro conjI ballI allI impI)
    fix p :: nat
    assume "p \<in> {11}"
    with sp11 show "\<exists>n. token_span ?fn p n" by auto
  next
    fix p p' n :: nat
    assume "p \<in> {11}" "p' \<in> {11}" "p' < p"
    then show "p' + n \<le> p" by simp
  next
    fix q n
    assume "token_span ?fn q n"
    from sp [OF this] sp11 show "\<exists>p \<in> {11}. \<exists>k. token_span ?fn p k \<and> p \<le> q \<and> q < p + k"
      by auto
  qed
  have mem: "(11::nat) \<in> {11}" by simp
  have later: "upper tok' \<in> set disciplines"
    if "q \<in> {11::nat}" and "11 < q" and "token_at ?fn q tok'" for q tok'
    using that by simp
  note r1 = from_existing_user [OF h n1 n2, THEN conjunct2, THEN conjunct1, rule_format,
      OF sc mem tk nd later]
  let ?fx = "''char_fx_aw.ma''"
  have h': "from_existing ''jane-doe'' ?fx =
     Inr \<lparr> description = ''unititled'', discipline = ''FX'', version = - 1, optional = None,
           user = ''jd'', extension = ''ma'' \<rparr>"
    by code_simp
  have n1': "CHR ''^'' \<notin> set ?fx" by simp
  have n2': "CHR ''$'' \<notin> set ?fx" by simp
  have t4: "token_at ?fx 4 ''fx''" by code_simp
  have t7: "token_at ?fx 7 ''aw''" by code_simp
  have fx: "upper ''fx'' \<in> set disciplines" by code_simp
  have e': "list_all (\<lambda>q. match_at pattern_username ?fx q = None \<or> q = 4 \<or> q = 7) [0..<length ?fx]"
    by code_simp
  have sp4: "token_span ?fx 4 4"
    unfolding token_span_def using t4 by auto
  have sp': "(q = 4 \<or> q = 7) \<and> n = 4" if "token_span ?fx q n" for q n
  proof -
    from that obtain g where g: "match_at pattern_username ?fx q = Some (g, n)"
      by (simp only: token_span_match [OF n1' n2']) blast
    then have "match_at pattern_username ?fx q \<noteq> None" by simp
    from match_at_only [OF e' this] have "q = 4 \<or> q = 7" .
    moreover from that have "n = 4" by (auto simp: token_span_def)
    ultimately show ?thesis by simp
  qed
  have sc': "scanned (token_span ?fx) {4}"
    unfolding scanned_def
  proof (intro conjI ballI allI impI)
    fix p :: nat
    assume "p \<in> {4}"
    with sp4 show "\<exists>n. token_span ?fx p n" by auto
  next
    fix p p' n :: nat
    assume "p \<in> {4}" "p' \<in> {4}" "p' < p"
    then show "p' + n \<le> p" by simp
  next
    fix q n
    assume "token_span ?fx q n"
    from sp' [OF this] sp4 show "\<exists>p \<in> {4}. \<exists>k. token_span ?fx p k \<and> p \<le> q \<and> q < p + k"
      by auto
  qed
  have seen: "upper tok \<in> set disciplines" if "q \<in> {4::nat}" and "token_at ?fx q tok" for q tok
  proof -
    from that have "token_at ?fx 4 tok" by simp
    from token_match [OF n1' n2' this] token_match [OF n1' n2' t4] have "tok = ''fx''"
      by simp
    with fx show ?thesis by simp
  qed
  note r2 = from_existing_user [OF h' n1' n2', THEN conjunct2, THEN conjunct2, THEN conjunct1,
      rule_format, OF sc' seen]
  from r1 r2 h n1 n2 sc tk nd h' n1' n2' sc' t4 t7 fx show ?thesis
    by simp
qed

text \<open>
  Claim C3 as stated fails. In \<open>x_aw_bc_y.ma\<close> the tokens are \<open>aw\<close> at position 1
  and \<open>bc\<close> at position 4; the scan consumes the separator they share and reports
  \<open>aw\<close> only. In \<open>foo.ma\<close> no token occurs, and the tag is \<open>jd\<close>, made from the
  login name \<open>jane-doe\<close>, not the empty string.
\<close>

theorem from_existing_user_counterexample:
  "from_existing ''jane-doe'' ''x_aw_bc_y.ma'' =
     Inr \<lparr> description = ''unititled'', discipline = ''MDL'', version = - 1, optional = None,
           user = ''aw'', extension = ''ma'' \<rparr> \<and>
   token_at ''x_aw_bc_y.ma'' 1 ''aw'' \<and> token_at ''x_aw_bc_y.ma'' 4 ''bc'' \<and>
   upper ''bc'' \<notin> set disciplines \<and>
   from_existing ''jane-doe'' ''foo.ma'' =
     Inr \<lparr> description = ''unititled'', discipline = ''MDL'', version = - 1, optional = None,
           user = ''jd'', extension = ''ma'' \<rparr> \<and>
   map (match_at pattern_username ''foo.ma'') [0..<6] = [None, None, None, None, None, None]"
  by code_simp

subsection \<open>The extension\<close>

lemma rfind_absent: "c \<notin> set s \<Longrightarrow> rfind c s = - 1"
  by (simp add: rfind_def)

lemma rfind_last_occurrence: "c \<notin> set e \<Longrightarrow> rfind c (stem @ c # e) = int (length stem)"
proof -
  assume "c \<notin> set e"
  then have "takeWhile (\<lambda>x. x \<noteq> c) (rev e @ c # rev stem) = rev e"
    by (subst takeWhile_append2) auto
  then show ?thesis
    by (simp add: rfind_def)
qed

lemma findExt_cases:
  assumes "CHR ''/'' \<notin> set filename"
  shows "CHR ''.'' \<notin> set filename \<Longrightarrow> findExt filename = ''ma''"
    and "filename = stem @ CHR ''.'' # e \<Longrightarrow> CHR ''.'' \<notin> set e \<Longrightarrow>
         \<exists>c \<in> set stem. c \<noteq> CHR ''.'' \<Longrightarrow> findExt filename = (if e = [] then ''ma'' else e)"
    and "filename = stem @ CHR ''.'' # e \<Longrightarrow> CHR ''.'' \<notin> set e \<Longrightarrow>
         \<forall>c \<in> set stem. c = CHR ''.'' \<Longrightarrow> findExt filename = ''ma''"
proof -
  from assms have sep: "rfind CHR ''/'' filename = - 1"
    by (rule rfind_absent)
  {
    assume "CHR ''.'' \<notin> set filename"
    then have "rfind CHR ''.'' filename = - 1"
      by (rule rfind_absent)
    with sep show "findExt filename = ''ma''"
      by (simp add: findExt_def splitext_def)
  }
  {
    assume f: "filename = stem @ CHR ''.'' # e" and e: "CHR ''.'' \<notin> set e"
      and ex: "\<exists>c \<in> set stem. c \<noteq> CHR ''.''"
    from e have dot: "rfind CHR ''.'' (stem @ CHR ''.'' # e) = int (length stem)"
      by (rule rfind_last_occurrence)
    from e have "filter (\<lambda>c. c \<noteq> CHR ''.'') e = e"
      by (induction e) auto
    with sep dot f ex show "findExt filename = (if e = [] then ''ma'' else e)"
      by (auto simp: findExt_def splitext_def list_ex_iff)
  }
  {
    assume f: "filename = stem @ CHR ''.'' # e" and e: "CHR ''.'' \<notin> set e"
      and ex: "\<forall>c \<in> set stem. c = CHR ''.''"
    from e have dot: "rfind CHR ''.'' (stem @ CHR ''.'' # e) = int (length stem)"
      by (rule rfind_last_occurrence)
    with sep dot f ex show "findExt filename = ''ma''"
      by (auto simp: findExt_def splitext_def list_ex_iff)
  }
qed

text \<open>
  Claim C6, as amended. \<^verbatim>\<open>from_existing\<close> does not infer the extension: it
  passes version, user and discipline only, so the descriptor it returns always has
  the default extension \<open>ma\<close>. The inference of the claim is the separate operation
  \<^verbatim>\<open>_findExt\<close>, which \<^verbatim>\<open>from_existing\<close> does not call: for a file name without
  a slash it returns what follows the final dot, and \<open>ma\<close> when there is no dot,
  when nothing follows the final dot, or when only dots precede it.
\<close>

theorem from_existing_extension:
  "(\<forall>sf. from_existing login filename = Inr sf \<longrightarrow> extension sf = ''ma'') \<and>
   (CHR ''/'' \<notin> set filename \<longrightarrow>
      (CHR ''.'' \<notin> set filename \<longrightarrow> findExt filename = ''ma'') \<and>
      (\<forall>stem e. filename = stem @ CHR ''.'' # e \<longrightarrow> CHR ''.'' \<notin> set e \<longrightarrow>
         findExt filename = (if e = [] \<or> (\<forall>c \<in> set stem. c = CHR ''.'') then ''ma'' else e)))"
proof (intro conjI allI impI)
  fix sf
  assume "from_existing login filename = Inr sf"
  then show "extension sf = ''ma''"
    by (auto simp: from_existing_eq split: sum.splits if_splits)
next
  assume "CHR ''/'' \<notin> set filename" and "CHR ''.'' \<notin> set filename"
  then show "findExt filename = ''ma''"
    by (rule findExt_cases(1))
next
  fix stem e
  assume s: "CHR ''/'' \<notin> set filename" and f: "filename = stem @ CHR ''.'' # e"
    and e: "CHR ''.'' \<notin> set e"
  show "findExt filename = (if e = [] \<or> (\<forall>c \<in> set stem. c = CHR ''.'') then ''ma'' else e)"
  proof (cases "\<forall>c \<in> set stem. c = CHR ''.''")
    case True
    with findExt_cases(3) [OF s f e] show ?thesis by simp
  next
    case False
    then have "\<exists>c \<in> set stem. c \<noteq> CHR ''.''" by simp
    from findExt_cases(2) [OF s f e this] False show ?thesis by auto
  qed
qed

theorem from_existing_extension_witness:
  "from_existing ''andres-weber'' ''foo_v002_aw.mb'' =
     Inr \<lparr> description = ''unititled'', discipline = ''MDL'', version = 2, optional = None,
           user = ''aw'', extension = ''ma'' \<rparr> \<and>
   extension \<lparr> description = ''unititled'', discipline = ''MDL'', version = 2, optional = None,
           user = ''aw'', extension = ''ma'' \<rparr> = ''ma'' \<and>
   CHR ''/'' \<notin> set ''foo_v002_aw.mb'' \<and> findExt (''foo_v002_aw'' @ CHR ''.'' # ''mb'') = ''mb''"
proof -
  have h: "from_existing ''andres-weber'' ''foo_v002_aw.mb'' =
     Inr \<lparr> description = ''unititled'', discipline = ''MDL'', version = 2, optional = None,
           user = ''aw'', extension = ''ma'' \<rparr>"
    by code_simp
  have s: "CHR ''/'' \<notin> set ''foo_v002_aw.mb''" by simp
  have f: "''foo_v002_aw.mb'' = ''foo_v002_aw'' @ CHR ''.'' # ''mb''" by simp
  have e: "CHR ''.'' \<notin> set ''mb''" by simp
  from from_existing_extension [of "''andres-weber''" "''foo_v002_aw.mb''", THEN conjunct1, rule_format, OF h]
    from_existing_extension [of "''andres-weber''" "''foo_v002_aw.mb''", THEN conjunct2, rule_format, OF s,
      THEN conjunct2, rule_format, OF f e] h s
  show ?thesis by simp
qed

text \<open>
  Claim C6 as stated fails: for \<open>foo_v002_aw.mb\<close> the descriptor has extension
  \<open>ma\<close>, while the substring after the final dot, which \<^verbatim>\<open>_findExt\<close> returns,
  is \<open>mb\<close>.
\<close>

theorem from_existing_extension_counterexample:
  "from_existing ''andres-weber'' ''foo_v002_aw.mb'' =
     Inr \<lparr> description = ''unititled'', discipline = ''MDL'', version = 2, optional = None,
           user = ''aw'', extension = ''ma'' \<rparr> \<and>
   findExt ''foo_v002_aw.mb'' = ''mb''"
  by code_simp

section \<open>Properties of the rendering\<close>

lemma fmt_03d_examples:
  "fmt_03d 1 = ''001''" "fmt_03d 45 = ''045''" "fmt_03d (- 1) = ''-01''"
  by code_simp+

text \<open>
  Claim C10. \<^verbatim>\<open>SaveData.get_filename\<close> reads \<^verbatim>\<open>self.scene_file.initials\<close>, and a
  SceneFile has no attribute of that name (the author tag is stored as \<open>user\<close>):
  for every SceneFile the call raises AttributeError, after the version has been
  formatted and before \<^verbatim>\<open>format\<close> is called. It never returns a file name, so
  for every input path \<^verbatim>\<open>SaveData(path).get_filename()\<close> ends in an exception.
\<close>

theorem get_filename_attribute_error:
  "get_filename sf = Inl (AttributeError ''initials'') \<and>
   (\<exists>e. SaveData_get_filename login input_filepath = Inl e)"
  by (cases "SaveData_scene_file login input_filepath")
     (simp_all add: SaveData_get_filename_def get_filename_def getattr_def bind_err_def)

text \<open>
  The version segment is the fourth keyword argument of \<^verbatim>\<open>get_filename\<close>: it is
  evaluated, and the lookup of \<open>initials\<close> fails after it.
\<close>

lemma get_filename_after_version_segment:
  "get_filename sf = bind_err (version_segment sf) (\<lambda>VERSION. Inl (AttributeError ''initials''))"
  by (simp add: get_filename_def version_segment_def getattr_def bind_err_def)

text \<open>
  Claim C5, as amended. \<^verbatim>\<open>get_filename\<close> has no test of the version. For a
  descriptor whose version is the sentinel \<open>-1\<close> the version segment is formatted
  to \<open>-01\<close> without an error, and the call ends as it does for the same descriptor
  with any other version \<open>v\<close>: with the AttributeError on \<open>initials\<close>. No error is
  raised on account of the undetermined version.
\<close>

theorem get_filename_no_version_test:
  "version_segment (sf\<lparr>version := - 1\<rparr>) = Inr (PStr ''-01'') \<and>
   get_filename (sf\<lparr>version := - 1\<rparr>) = Inl (AttributeError ''initials'') \<and>
   get_filename (sf\<lparr>version := v\<rparr>) = get_filename (sf\<lparr>version := - 1\<rparr>)"
proof -
  have "fmt_03d (- 1) = ''-01''"
    by code_simp
  then have "version_segment (sf\<lparr>version := - 1\<rparr>) = Inr (PStr ''-01'')"
    by (simp add: version_segment_def getattr_def bind_err_def)
  moreover have "get_filename (sf\<lparr>version := w\<rparr>) = Inl (AttributeError ''initials'')" for w
    by (simp add: get_filename_def getattr_def bind_err_def)
  ultimately show ?thesis
    by simp
qed

text \<open>
  Claim C5 as stated fails. The descriptor inferred from \<open>asset.ma\<close> has version
  \<open>-1\<close>. Its version segment is formatted to \<open>-01\<close> and no error is raised for it;
  the exception that ends the call is the AttributeError on \<open>initials\<close>, the same
  one that ends the call for the same descriptor with version 1.
\<close>

theorem get_filename_undetermined_version_counterexample:
  "from_existing ''andres-weber'' ''asset.ma'' =
     Inr \<lparr> description = ''unititled'', discipline = ''MDL'', version = - 1, optional = None,
           user = ''aw'', extension = ''ma'' \<rparr> \<and>
   version_segment \<lparr> description = ''unititled'', discipline = ''MDL'', version = - 1,
                     optional = None, user = ''aw'', extension = ''ma'' \<rparr> = Inr (PStr ''-01'') \<and>
   get_filename \<lparr> description = ''unititled'', discipline = ''MDL'', version = - 1,
                  optional = None, user = ''aw'', extension = ''ma'' \<rparr> =
     Inl (AttributeError ''initials'') \<and>
   get_filename \<lparr> description = ''unititled'', discipline = ''MDL'', version = 1,
                  optional = None, user = ''aw'', extension = ''ma'' \<rparr> =
     Inl (AttributeError ''initials'')"
proof (intro conjI)
  show "from_existing ''andres-weber'' ''asset.ma'' =
     Inr \<lparr> description = ''unititled'', discipline = ''MDL'', version = - 1, optional = None,
           user = ''aw'', extension = ''ma'' \<rparr>"
    by code_simp
  show "version_segment \<lparr> description = ''unititled'', discipline = ''MDL'', version = - 1,
                     optional = None, user = ''aw'', extension = ''ma'' \<rparr> = Inr (PStr ''-01'')"
    by code_simp
  show "get_filename \<lparr> description = ''unititled'', discipline = ''MDL'', version = - 1,
                  optional = None, user = ''aw'', extension = ''ma'' \<rparr> =
     Inl (AttributeError ''initials'')"
    by (simp add: get_filename_def getattr_def bind_err_def)
  show "get_filename \<lparr> description = ''unititled'', discipline = ''MDL'', version = 1,
                  optional = None, user = ''aw'', extension = ''ma'' \<rparr> =
     Inl (AttributeError ''initials'')"
    by (simp add: get_filename_def getattr_def bind_err_def)
qed

text \<open>
  Claim C4. The canonical name of the descriptor (foo, MDL, 1, aw, no optional tag,
  ma) would be \<open>foo_MDL_001_aw.ma\<close>. The code raises AttributeError instead; and the
  template itself, once the optional segment is removed and the fields are filled
  in with the author tag supplied, puts no dot before the extension.
\<close>

theorem get_filename_canonical_failing_input:
  "get_filename \<lparr> description = ''foo'', discipline = ''MDL'', version = 1, optional = None,
                  user = ''aw'', extension = ''ma'' \<rparr> = Inl (AttributeError ''initials'') \<and>
   format_str (replace_str ''_{OPTIONAL}'' [] template_string)
     [(''DESCRIPTION'', PStr ''foo''), (''DISCIPLINE'', PStr ''MDL''), (''VERSION'', PStr (fmt_03d 1)),
      (''INITIALS'', PStr ''aw''), (''OPTIONAL'', PNone), (''EXT'', PStr ''ma'')]
     = Inr ''foo_MDL_001_awma''"
proof
  show "get_filename \<lparr> description = ''foo'', discipline = ''MDL'', version = 1, optional = None,
                  user = ''aw'', extension = ''ma'' \<rparr> = Inl (AttributeError ''initials'')"
    by (simp add: get_filename_def getattr_def bind_err_def)
  show "format_str (replace_str ''_{OPTIONAL}'' [] template_string)
     [(''DESCRIPTION'', PStr ''foo''), (''DISCIPLINE'', PStr ''MDL''), (''VERSION'', PStr (fmt_03d 1)),
      (''INITIALS'', PStr ''aw''), (''OPTIONAL'', PNone), (''EXT'', PStr ''ma'')]
     = Inr ''foo_MDL_001_awma''"
    by code_simp
qed

section \<open>Properties of the Directory\<close>

lemma or_field_cases:
  "or_field x cur = (if x = None \<or> x = Some [] then cur else x)"
  by (cases x) (auto simp: or_field_def or_str_def)

text \<open>
  Claim C7. The candidate context is the current one with the supplied fields laid
  over it (a field that is not supplied, or is empty, keeps its current value), or
  the one resolved from \<open>from_dict\<close>. When the naming authority resolves the
  candidate and answers the validation, \<^verbatim>\<open>set_cur_dir\<close> returns that answer; on
  False the object is exactly as before the call, on True the candidate is the
  current context. The context is replaced as a whole, never field by field.
\<close>

theorem set_cur_dir_transactional:
  "(cd_job (overlay T job' shot' scene' d) =
      (if job' = None \<or> job' = Some [] then cd_job (as_dict T (context' d)) else job') \<and>
    cd_shot (overlay T job' shot' scene' d) =
      (if shot' = None \<or> shot' = Some [] then cd_shot (as_dict T (context' d)) else shot') \<and>
    cd_scene (overlay T job' shot' scene' d) =
      (if scene' = None \<or> scene' = Some [] then cd_scene (as_dict T (context' d)) else scene')) \<and>
   (\<forall>c ok.
      (case from_dict of
         Some fd \<Rightarrow> fromDict T fd
       | None \<Rightarrow> fromDict T (overlay T job' shot' scene' d)) = Inr c \<longrightarrow>
      validateContext T c = Inr ok \<longrightarrow>
      set_cur_dir T job' shot' scene' from_dict d =
        (Inr ok, if ok then d\<lparr>context' := c\<rparr> else d))"
  by (simp add: overlay_def Let_def or_field_cases set_cur_dir_def validate_def)

lemma demo_dir_eq:
  "demo_dir =
     \<lparr> context' = \<lparr> cd_job = Some ''jobA'', cd_shot = Some ''char_santa'', cd_scene = Some ''build'' \<rparr>,
       tree_cache = [(''jobA'', [(''build'', [''char_santa'', ''config'']),
                                 (''shots'', [''sh01'', ''tools''])])] \<rparr>"
  by code_simp

theorem set_cur_dir_transactional_witness:
  "fromDict demo_tessa (overlay demo_tessa None (Some ''does_not_exist'') None demo_dir) =
     Inr \<lparr> cd_job = Some ''jobA'', cd_shot = Some ''does_not_exist'', cd_scene = Some ''build'' \<rparr> \<and>
   validateContext demo_tessa
     \<lparr> cd_job = Some ''jobA'', cd_shot = Some ''does_not_exist'', cd_scene = Some ''build'' \<rparr> = Inr False \<and>
   set_cur_dir demo_tessa None (Some ''does_not_exist'') None None demo_dir = (Inr False, demo_dir)"
proof -
  let ?c = "\<lparr> cd_job = Some ''jobA'', cd_shot = Some ''does_not_exist'', cd_scene = Some ''build'' \<rparr>"
  have h1: "(case None of
         Some fd \<Rightarrow> fromDict demo_tessa fd
       | None \<Rightarrow> fromDict demo_tessa (overlay demo_tessa None (Some ''does_not_exist'') None demo_dir)) = Inr ?c"
    by (simp add: demo_dir_eq demo_tessa_def overlay_def or_field_def or_str_def)
  have h2: "validateContext demo_tessa ?c = Inr False"
    by (simp add: demo_tessa_def demo_valid_def find_node_def demo_jobs_def)
  from set_cur_dir_transactional [of demo_tessa None "Some ''does_not_exist''" None demo_dir None,
      THEN conjunct2, rule_format, OF h1 h2] h1 h2
  show ?thesis by simp
qed

text \<open>
  Claim C8 fails on the code: \<^verbatim>\<open>set_cur_dir\<close> never touches \<open>tree_cache\<close>. After a
  successful change from jobA to jobB the cache still holds jobA's subtree only, and
  \<^verbatim>\<open>get_scenes\<close> and \<^verbatim>\<open>get_shots\<close>, which index the cache by the name of the
  current job, raise KeyError.
\<close>

theorem set_cur_dir_stale_cache:
  "set_cur_dir demo_tessa (Some ''jobB'') (Some ''prop_sled'') None None demo_dir =
     (Inr True,
      \<lparr> context' = \<lparr> cd_job = Some ''jobB'', cd_shot = Some ''prop_sled'', cd_scene = Some ''build'' \<rparr>,
        tree_cache = [(''jobA'', [(''build'', [''char_santa'', ''config'']),
                                  (''shots'', [''sh01'', ''tools''])])] \<rparr>) \<and>
   get_scenes demo_tessa []
     (snd (set_cur_dir demo_tessa (Some ''jobB'') (Some ''prop_sled'') None None demo_dir)) =
     Inl (KeyError ''jobB'') \<and>
   get_shots demo_tessa ''build'' []
     (snd (set_cur_dir demo_tessa (Some ''jobB'') (Some ''prop_sled'') None None demo_dir)) =
     Inl (KeyError ''jobB'')"
  by code_simp

text \<open>
  The exceptions of the naming authority: when the candidate cannot be resolved the
  object is untouched; when the validation itself raises, the candidate stays in
  place, since the assignment precedes the call.
\<close>

lemma set_cur_dir_exceptions:
  "fromDict T (overlay T job' shot' scene' d) = Inl e \<Longrightarrow>
     set_cur_dir T job' shot' scene' None d = (Inl e, d)"
  "fromDict T (overlay T job' shot' scene' d) = Inr c \<Longrightarrow> validateContext T c = Inl e \<Longrightarrow>
     set_cur_dir T job' shot' scene' None d = (Inl e, d\<lparr>context' := c\<rparr>)"
  by (simp_all add: set_cur_dir_def validate_def Let_def)

lemma set_cur_dir_tree_cache:
  "tree_cache (snd (set_cur_dir T job' shot' scene' from_dict d)) = tree_cache d"
  by (simp add: set_cur_dir_def validate_def Let_def split: sum.splits option.splits)

lemma dict_set_entries: "set (dict_set k v d) \<subseteq> insert (k, v) (set d)"
  by (induction d) auto

lemma foldl_shot_names:
  "foldl (\<lambda>shots shot. shots @ [name shot]) acc xs = acc @ map name xs"
  by (induction xs arbitrary: acc) auto

lemma add_scene_entries:
  assumes "(s, shots) \<in> set (add_scene sc scenes)"
  shows "(s, shots) \<in> set scenes \<or>
         (name sc = s \<and> s \<notin> set scene_ignore_list \<and> shots = map name (findChildren sc))"
proof (cases "name sc \<in> set scene_ignore_list")
  case True
  with assms show ?thesis by (simp add: add_scene_def)
next
  case False
  with assms dict_set_entries [of "name sc" "map name (findChildren sc)" scenes]
  show ?thesis
    by (auto simp: add_scene_def foldl_shot_names)
qed

lemma fold_add_scene_entries:
  assumes "(s, shots) \<in> set (foldl (\<lambda>scenes scene. add_scene scene scenes) acc children)"
  shows "(s, shots) \<in> set acc \<or>
         (\<exists>sc \<in> set children. name sc = s \<and> s \<notin> set scene_ignore_list \<and>
            shots = map name (findChildren sc))"
  using assms
proof (induction children arbitrary: acc)
  case Nil
  then show ?case by simp
next
  case (Cons sc children)
  from Cons.prems have "(s, shots) \<in> set (foldl (\<lambda>scenes scene. add_scene scene scenes) (add_scene sc acc) children)"
    by simp
  from Cons.IH [OF this] add_scene_entries [of s shots sc acc] show ?case
    by auto
qed

text \<open>
  Claim C9, as amended. The cache stored by \<^verbatim>\<open>refresh_tree\<close> has the current
  job's name as its only key; no scene key is on the scene-ignore list; and every
  cached shot list is the complete list of the child names of a scene of the job:
  the shot-ignore list is not applied when the cache is built. It is applied when
  the cache is read: a list returned by \<^verbatim>\<open>get_shots\<close> holds no name of the
  shot-ignore list.
\<close>

theorem refresh_tree_filters_scenes:
  assumes "refresh_tree T d = (cache, d')"
  shows "tree_cache d' = cache \<and> context' d' = context' d \<and> keys cache = [name (job T (context' d))] \<and>
         (\<forall>scenes s shots.
            dict_get cache (name (job T (context' d))) = Inr scenes \<longrightarrow> (s, shots) \<in> set scenes \<longrightarrow>
              s \<notin> set scene_ignore_list \<and>
              (\<exists>sc \<in> set (findChildren (job T (context' d))).
                 name sc = s \<and> shots = map name (findChildren sc))) \<and>
         (\<forall>s flt shots. get_shots T s flt d' = Inr (Some shots) \<longrightarrow>
            set shots \<inter> set shot_ignore_list = {})"
proof -
  let ?j = "job T (context' d)"
  let ?scenes = "foldl (\<lambda>scenes scene. add_scene scene scenes) [] (findChildren ?j)"
  from assms have c: "cache = [(name ?j, ?scenes)]" and d': "d' = d\<lparr>tree_cache := cache\<rparr>"
    by (auto simp: refresh_tree_def Let_def)
  have "\<And>s shots. (s, shots) \<in> set ?scenes \<Longrightarrow>
      s \<notin> set scene_ignore_list \<and> (\<exists>sc \<in> set (findChildren ?j). name sc = s \<and> shots = map name (findChildren sc))"
    using fold_add_scene_entries [of _ _ "[]" "findChildren ?j"] by auto
  then have p2: "\<forall>scenes s shots.
            dict_get cache (name ?j) = Inr scenes \<longrightarrow> (s, shots) \<in> set scenes \<longrightarrow>
              s \<notin> set scene_ignore_list \<and>
              (\<exists>sc \<in> set (findChildren ?j). name sc = s \<and> shots = map name (findChildren sc))"
    by (simp add: c dict_get_def)
  have p3: "\<forall>s flt shots. get_shots T s flt d' = Inr (Some shots) \<longrightarrow>
            set shots \<inter> set shot_ignore_list = {}"
    by (auto simp: get_shots_def bind_err_def Let_def split: sum.splits if_splits)
  from c d' p2 p3 show ?thesis
    by (simp add: keys_def)
qed

theorem refresh_tree_filters_scenes_witness:
  "refresh_tree demo_tessa demo_dir = (tree_cache demo_dir, demo_dir) \<and>
   keys (tree_cache demo_dir) = [''jobA''] \<and>
   ''pitch'' \<in> set (map name (findChildren (job demo_tessa (context' demo_dir)))) \<and>
   ''pitch'' \<in> set scene_ignore_list \<and>
   get_shots demo_tessa ''build'' [] demo_dir = Inr (Some [''char_santa''])"
proof -
  have h: "refresh_tree demo_tessa demo_dir = (tree_cache demo_dir, demo_dir)"
    by code_simp
  have j: "name (job demo_tessa (context' demo_dir)) = ''jobA''"
    by code_simp
  have "''pitch'' \<in> set (map name (findChildren (job demo_tessa (context' demo_dir))))"
    by code_simp
  moreover have "''pitch'' \<in> set scene_ignore_list"
    by code_simp
  moreover have "get_shots demo_tessa ''build'' [] demo_dir = Inr (Some [''char_santa''])"
    by code_simp
  ultimately show ?thesis
    using refresh_tree_filters_scenes [OF h] h j by simp
qed

text \<open>
  Claim C9 as stated fails: the shot lists cached for jobA contain \<open>config\<close> and
  \<open>tools\<close>, both on the shot-ignore list.
\<close>

theorem refresh_tree_keeps_ignored_shots:
  "fst (refresh_tree demo_tessa demo_dir) =
     [(''jobA'', [(''build'', [''char_santa'', ''config'']), (''shots'', [''sh01'', ''tools''])])] \<and>
   ''config'' \<in> set shot_ignore_list \<and> ''tools'' \<in> set shot_ignore_list"
  by code_simp

end
